theory Spec2Isabelle
  imports Complex_Main "HOL-Library.AList"
begin

section \<open>Tokens and errors\<close>

text \<open>
  The token kinds of \<^verbatim>\<open>TokenType\<close> and the class \<^verbatim>\<open>Token\<close> of the lexer (type, value,
  position). Every \<^verbatim>\<open>throw new Error(...)\<close> of the lexer, the parser and the editor component
  is a constructor of \<open>error\<close> carrying the values its message interpolates; \<open>TypeError\<close> stands
  for the errors the host raises by itself (reading a property of \<^verbatim>\<open>null\<close> or \<^verbatim>\<open>undefined\<close>).
  Strings are lists of 8-bit characters: the input is read as a sequence of code units below 256.
\<close>

datatype tokenType = KEYWORD | IDENTIFIER | STRING | NUMBER | OPERATOR | PUNCTUATION | WHITESPACE | ERROR

record token =
  tok_type :: tokenType
  tok_value :: string
  tok_position :: nat

datatype error =
    InvalidCharacter char nat
  | UnterminatedString nat
  | ExpectedButEnd tokenType "string option"
  | ExpectedButGot tokenType "string option" tokenType string
  | EmptyQuery
  | UnsupportedCommand string
  | UnexpectedEndOfInput
  | UnexpectedToken tokenType string nat
  | ExpectedTablesAfterShow string
  | TableNotFound string
  | ColumnCountMismatch
  | UnsupportedOperator string
  | UnsupportedOperandType string
  | UnsupportedTokenType string
  | TypeError string

section \<open>The lexical analyzer\<close>

definition KEYWORDS :: "string list" where
  "KEYWORDS = [''SELECT'', ''FROM'', ''WHERE'', ''INSERT'', ''INTO'', ''VALUES'',
     ''UPDATE'', ''SET'', ''DELETE'', ''AND'', ''OR'', ''NOT'', ''NULL'',
     ''CREATE'', ''TABLE'', ''DROP'', ''ALTER'', ''INDEX'', ''PRIMARY'',
     ''KEY'', ''FOREIGN'', ''REFERENCES'', ''DEFAULT'', ''CONSTRAINT'',
     ''SHOW'', ''TABLES'']"

definition OPERATORS :: "string list" where
  "OPERATORS = [''='', ''<'', ''>'', ''<='', ''>='', ''<>'', ''+'', ''-'', ''*'', ''/'', ''%'']"

text \<open>
  \<^verbatim>\<open>/\s/\<close>, \<^verbatim>\<open>/[a-zA-Z]/\<close> and \<^verbatim>\<open>/[0-9]/\<close> on one character. \<open>toUpperCase\<close> maps the
  letters a to z only; every string it is compared with is an ASCII keyword, operator or
  punctuation sign, so other characters cannot change the outcome of a comparison.
\<close>

definition isWhitespace :: "char \<Rightarrow> bool" where
  "isWhitespace c = (of_char c \<in> set [9, 10, 11, 12, 13, 32, 160 :: nat])"

definition isLetter :: "char \<Rightarrow> bool" where
  "isLetter c = ((97 \<le> (of_char c :: nat) \<and> (of_char c :: nat) \<le> 122) \<or>
                 (65 \<le> (of_char c :: nat) \<and> (of_char c :: nat) \<le> 90))"

definition isDigit :: "char \<Rightarrow> bool" where
  "isDigit c = (48 \<le> (of_char c :: nat) \<and> (of_char c :: nat) \<le> 57)"

definition isIdentifierChar :: "char \<Rightarrow> bool" where
  "isIdentifierChar c = (isLetter c \<or> isDigit c \<or> c = CHR ''_'')"

definition toUpperCase :: "string \<Rightarrow> string" where
  "toUpperCase s = map (\<lambda>c. if 97 \<le> (of_char c :: nat) \<and> (of_char c :: nat) \<le> 122
                              then char_of ((of_char c :: nat) - 32) else c) s"

text \<open>
  The analyzer's state is its position in the input; \<open>peek_lexer\<close> is \<^verbatim>\<open>LexicalAnalyzer.peek\<close>.
  Each \<^verbatim>\<open>while\<close> loop of a tokenizing method is a recursive function on the position, the
  accumulated value and the loop's flags; it returns the value and the position reached.
\<close>

definition peek_lexer :: "string \<Rightarrow> nat \<Rightarrow> char option" where
  "peek_lexer input pos = (if pos < length input then Some (input ! pos) else None)"

function tokenizeIdentifier_loop :: "string \<Rightarrow> nat \<Rightarrow> string \<Rightarrow> string \<times> nat" where
  "tokenizeIdentifier_loop input pos val =
     (case peek_lexer input pos of
        None \<Rightarrow> (val, pos)
      | Some c \<Rightarrow> if isIdentifierChar c
                  then tokenizeIdentifier_loop input (Suc pos) (val @ [c])
                  else (val, pos))"
  by pat_completeness auto
termination
  by (relation "measure (\<lambda>(input, pos, val). length input - pos)")
     (auto simp: peek_lexer_def split: if_splits)

declare tokenizeIdentifier_loop.simps [simp del]

definition tokenizeIdentifier :: "string \<Rightarrow> nat \<Rightarrow> token \<times> nat" where
  "tokenizeIdentifier input pos =
     (let startPos = pos;
          (val, pos') = tokenizeIdentifier_loop input pos [];
          upperValue = toUpperCase val
      in if upperValue \<in> set KEYWORDS
         then (\<lparr>tok_type = KEYWORD, tok_value = upperValue, tok_position = startPos\<rparr>, pos')
         else (\<lparr>tok_type = IDENTIFIER, tok_value = val, tok_position = startPos\<rparr>, pos'))"

function tokenizeNumber_loop :: "string \<Rightarrow> nat \<Rightarrow> string \<Rightarrow> bool \<Rightarrow> string \<times> nat" where
  "tokenizeNumber_loop input pos val hasDecimalPoint =
     (case peek_lexer input pos of
        None \<Rightarrow> (val, pos)
      | Some c \<Rightarrow>
          if isDigit c \<or> c = CHR ''.''
          then (if c = CHR ''.''
                then (if hasDecimalPoint then (val, pos)
                      else tokenizeNumber_loop input (Suc pos) (val @ [c]) True)
                else tokenizeNumber_loop input (Suc pos) (val @ [c]) hasDecimalPoint)
          else (val, pos))"
  by pat_completeness auto
termination
  by (relation "measure (\<lambda>(input, pos, val, d). length input - pos)")
     (auto simp: peek_lexer_def split: if_splits)

declare tokenizeNumber_loop.simps [simp del]

definition tokenizeNumber :: "string \<Rightarrow> nat \<Rightarrow> token \<times> nat" where
  "tokenizeNumber input pos =
     (let startPos = pos;
          (val, pos') = tokenizeNumber_loop input pos [] False
      in (\<lparr>tok_type = NUMBER, tok_value = val, tok_position = startPos\<rparr>, pos'))"

function tokenizeString_loop :: "string \<Rightarrow> nat \<Rightarrow> string \<Rightarrow> string \<times> nat" where
  "tokenizeString_loop input pos val =
     (case peek_lexer input pos of
        None \<Rightarrow> (val, pos)
      | Some c \<Rightarrow>
          if c = CHR 0x27
          then (if peek_lexer input (pos + 1) = Some (CHR 0x27)
                then tokenizeString_loop input (Suc (Suc pos)) (val @ [CHR 0x27])
                else (val, pos))
          else tokenizeString_loop input (Suc pos) (val @ [c]))"
  by pat_completeness auto
termination
  by (relation "measure (\<lambda>(input, pos, val). length input - pos)")
     (auto simp: peek_lexer_def split: if_splits)

declare tokenizeString_loop.simps [simp del]

definition tokenizeString :: "string \<Rightarrow> nat \<Rightarrow> error + token \<times> nat" where
  "tokenizeString input pos =
     (let startPos = pos;
          (val, pos') = tokenizeString_loop input (Suc pos) []
      in if peek_lexer input pos' = Some (CHR 0x27)
         then Inr (\<lparr>tok_type = STRING, tok_value = val, tok_position = startPos\<rparr>, Suc pos')
         else Inl (UnterminatedString startPos))"

function tokenizeOperator_loop :: "string \<Rightarrow> nat \<Rightarrow> string \<Rightarrow> string \<times> nat" where
  "tokenizeOperator_loop input pos val =
     (case peek_lexer input pos of
        None \<Rightarrow> (val, pos)
      | Some c \<Rightarrow> if val @ [c] \<in> set OPERATORS
                  then tokenizeOperator_loop input (Suc pos) (val @ [c])
                  else (val, pos))"
  by pat_completeness auto
termination
  by (relation "measure (\<lambda>(input, pos, val). length input - pos)")
     (auto simp: peek_lexer_def split: if_splits)

declare tokenizeOperator_loop.simps [simp del]

definition tokenizeOperator :: "string \<Rightarrow> nat \<Rightarrow> token \<times> nat" where
  "tokenizeOperator input pos =
     (let startPos = pos;
          (val, pos') = tokenizeOperator_loop input pos []
      in (\<lparr>tok_type = OPERATOR, tok_value = val, tok_position = startPos\<rparr>, pos'))"

function skipWhitespace :: "string \<Rightarrow> nat \<Rightarrow> nat" where
  "skipWhitespace input pos =
     (case peek_lexer input pos of
        None \<Rightarrow> pos
      | Some c \<Rightarrow> if isWhitespace c then skipWhitespace input (Suc pos) else pos)"
  by pat_completeness auto
termination
  by (relation "measure (\<lambda>(input, pos). length input - pos)")
     (auto simp: peek_lexer_def split: if_splits)

declare skipWhitespace.simps [simp del]

text \<open>
  Every tokenizing method advances the position when it is entered on a character that starts
  its lexeme; this is what makes the main loop of \<^verbatim>\<open>analyze\<close> terminate.
\<close>

lemma tokenizeIdentifier_loop_ge: "pos \<le> snd (tokenizeIdentifier_loop input pos val)"
proof (induction input pos val rule: tokenizeIdentifier_loop.induct)
  case (1 input pos val)
  show ?case
  proof (cases "peek_lexer input pos")
    case None
    then show ?thesis by (subst tokenizeIdentifier_loop.simps) simp
  next
    case (Some c)
    with 1 show ?thesis
      by (subst tokenizeIdentifier_loop.simps) (auto intro: Suc_leD)
  qed
qed

lemma tokenizeIdentifier_progress:
  assumes "peek_lexer input pos = Some c" and "isLetter c"
  shows "pos < snd (tokenizeIdentifier input pos)"
proof -
  have "Suc pos \<le> snd (tokenizeIdentifier_loop input (Suc pos) [c])"
    by (rule tokenizeIdentifier_loop_ge)
  moreover have "tokenizeIdentifier_loop input pos [] = tokenizeIdentifier_loop input (Suc pos) [c]"
    using assms by (subst tokenizeIdentifier_loop.simps) (simp add: isIdentifierChar_def)
  ultimately show ?thesis
    by (auto simp: tokenizeIdentifier_def Let_def split: prod.splits)
qed

lemma tokenizeNumber_loop_ge: "pos \<le> snd (tokenizeNumber_loop input pos val d)"
proof (induction input pos val d rule: tokenizeNumber_loop.induct)
  case (1 input pos val d)
  show ?case
  proof (cases "peek_lexer input pos")
    case None
    then show ?thesis by (subst tokenizeNumber_loop.simps) simp
  next
    case (Some c)
    with 1 show ?thesis
      by (subst tokenizeNumber_loop.simps) (auto intro: Suc_leD)
  qed
qed

lemma isDigit_not_dot: "isDigit c \<Longrightarrow> c \<noteq> CHR ''.''"
  by (auto simp: isDigit_def)

lemma tokenizeNumber_progress:
  assumes "peek_lexer input pos = Some c" and "isDigit c"
  shows "pos < snd (tokenizeNumber input pos)"
proof -
  have "Suc pos \<le> snd (tokenizeNumber_loop input (Suc pos) [c] False)"
    by (rule tokenizeNumber_loop_ge)
  moreover have "tokenizeNumber_loop input pos [] False = tokenizeNumber_loop input (Suc pos) [c] False"
    using assms isDigit_not_dot[OF assms(2)] by (subst tokenizeNumber_loop.simps) simp
  ultimately show ?thesis
    by (auto simp: tokenizeNumber_def Let_def split: prod.splits)
qed

lemma tokenizeString_loop_ge: "pos \<le> snd (tokenizeString_loop input pos val)"
proof (induction input pos val rule: tokenizeString_loop.induct)
  case (1 input pos val)
  show ?case
  proof (cases "peek_lexer input pos")
    case None
    then show ?thesis by (subst tokenizeString_loop.simps) simp
  next
    case (Some c)
    with 1 show ?thesis
      by (subst tokenizeString_loop.simps) (auto intro: Suc_leD dest: Suc_leD)
  qed
qed

lemma tokenizeString_progress:
  assumes "tokenizeString input pos = Inr (t, p)"
  shows "pos < p"
proof -
  have "Suc pos \<le> snd (tokenizeString_loop input (Suc pos) [])"
    by (rule tokenizeString_loop_ge)
  with assms show ?thesis
    by (auto simp: tokenizeString_def Let_def split: prod.splits if_splits)
qed

lemma tokenizeOperator_loop_ge: "pos \<le> snd (tokenizeOperator_loop input pos val)"
proof (induction input pos val rule: tokenizeOperator_loop.induct)
  case (1 input pos val)
  show ?case
  proof (cases "peek_lexer input pos")
    case None
    then show ?thesis by (subst tokenizeOperator_loop.simps) simp
  next
    case (Some c)
    with 1 show ?thesis
      by (subst tokenizeOperator_loop.simps) (auto intro: Suc_leD)
  qed
qed

lemma tokenizeOperator_progress:
  assumes "peek_lexer input pos = Some c" and "[c] \<in> set OPERATORS"
  shows "pos < snd (tokenizeOperator input pos)"
proof -
  have "Suc pos \<le> snd (tokenizeOperator_loop input (Suc pos) [c])"
    by (rule tokenizeOperator_loop_ge)
  moreover have "tokenizeOperator_loop input pos [] = tokenizeOperator_loop input (Suc pos) [c]"
    using assms by (subst tokenizeOperator_loop.simps) simp
  ultimately show ?thesis
    by (auto simp: tokenizeOperator_def Let_def split: prod.splits)
qed

lemma skipWhitespace_ge: "pos \<le> skipWhitespace input pos"
proof (induction input pos rule: skipWhitespace.induct)
  case (1 input pos)
  show ?case
  proof (cases "peek_lexer input pos")
    case None
    then show ?thesis by (subst skipWhitespace.simps) simp
  next
    case (Some c)
    with 1 show ?thesis
      by (subst skipWhitespace.simps) (auto intro: Suc_leD)
  qed
qed

lemma skipWhitespace_progress:
  assumes "peek_lexer input pos = Some c" and "isWhitespace c"
  shows "pos < skipWhitespace input pos"
proof -
  have "skipWhitespace input pos = skipWhitespace input (Suc pos)"
    using assms by (subst skipWhitespace.simps) simp
  with skipWhitespace_ge[of "Suc pos" input] show ?thesis by simp
qed

function analyze_loop :: "string \<Rightarrow> nat \<Rightarrow> token list \<Rightarrow> error + token list" where
  "analyze_loop input pos tokens =
     (case peek_lexer input pos of
        None \<Rightarrow> Inr tokens
      | Some c \<Rightarrow>
          if isWhitespace c then analyze_loop input (skipWhitespace input pos) tokens
          else if isLetter c then
            analyze_loop input (snd (tokenizeIdentifier input pos))
              (tokens @ [fst (tokenizeIdentifier input pos)])
          else if isDigit c then
            analyze_loop input (snd (tokenizeNumber input pos))
              (tokens @ [fst (tokenizeNumber input pos)])
          else if c = CHR 0x27 then
            (case tokenizeString input pos of
               Inl e \<Rightarrow> Inl e
             | Inr (t, pos') \<Rightarrow> analyze_loop input pos' (tokens @ [t]))
          else if [c] \<in> set OPERATORS then
            analyze_loop input (snd (tokenizeOperator input pos))
              (tokens @ [fst (tokenizeOperator input pos)])
          else if c \<in> set ''(),;'' then
            analyze_loop input (Suc pos)
              (tokens @ [\<lparr>tok_type = PUNCTUATION, tok_value = [c], tok_position = pos\<rparr>])
          else Inl (InvalidCharacter c pos))"
  by pat_completeness auto
termination
proof (relation "measure (\<lambda>(input, pos, tokens). length input - pos)", goal_cases)
  case 1
  show ?case by simp
next
  case (2 input pos tokens c)
  then show ?case
    using skipWhitespace_progress[of input pos c] by (auto simp: peek_lexer_def split: if_splits)
next
  case (3 input pos tokens c)
  then show ?case
    using tokenizeIdentifier_progress[of input pos c] by (auto simp: peek_lexer_def split: if_splits)
next
  case (4 input pos tokens c)
  then show ?case
    using tokenizeNumber_progress[of input pos c] by (auto simp: peek_lexer_def split: if_splits)
next
  case (5 input pos tokens c x2 t p)
  then show ?case
    using tokenizeString_progress[of input pos t p] by (auto simp: peek_lexer_def split: if_splits)
next
  case (6 input pos tokens c)
  then show ?case
    using tokenizeOperator_progress[of input pos c] by (auto simp: peek_lexer_def split: if_splits)
next
  case (7 input pos tokens c)
  then show ?case by (auto simp: peek_lexer_def split: if_splits)
qed

declare analyze_loop.simps [simp del]

definition lexicalAnalysis :: "string \<Rightarrow> error + token list" where
  "lexicalAnalysis query = analyze_loop query 0 []"

subsection \<open>The lexemes as the specification words them\<close>

text \<open>
  Two definitions that follow the specification, not the code, for comparison with the
  tokenizer. \<open>escapeQuotes body\<close> is the text of a string literal with the value \<open>body\<close>, between
  its quotes: every quote of the value is doubled. \<open>numberLexeme s\<close> is the longest prefix of
  \<open>s\<close> made of digits and at most one decimal point.
\<close>

definition escapeQuotes :: "string \<Rightarrow> string" where
  "escapeQuotes body = concat (map (\<lambda>c. if c = CHR 0x27 then [CHR 0x27, CHR 0x27] else [c]) body)"

definition numberLexeme :: "string \<Rightarrow> string" where
  "numberLexeme s =
     (case dropWhile isDigit s of
        [] \<Rightarrow> takeWhile isDigit s
      | c # r \<Rightarrow> if c = CHR ''.'' then takeWhile isDigit s @ CHR ''.'' # takeWhile isDigit r
                 else takeWhile isDigit s)"

section \<open>Abstract syntax\<close>

text \<open>
  The object literals the parser returns. An expression node is a \<^verbatim>\<open>BinaryExpression\<close>
  (operator, left, right), an \<^verbatim>\<open>Identifier\<close> (value) or a \<^verbatim>\<open>Literal\<close> (value, valueType).
  A statement carries the fields of its kind: SELECT (columns, table, where), INSERT (table,
  columns, valuesList), UPDATE (table, assignments, where), DELETE (table, where), SHOW_TABLES.
  The values of INSERT and UPDATE are the tokens themselves, as \<^verbatim>\<open>parseValue\<close> returns them.
\<close>

datatype expr =
    BinaryExpression string expr expr
  | Identifier string
  | Literal string tokenType

datatype statement =
    SelectStmt "string list" string "expr option"
  | InsertStmt string "string list" "token list list"
  | UpdateStmt string "(string \<times> token) list" "expr option"
  | DeleteStmt string "expr option"
  | ShowTablesStmt

section \<open>The parser\<close>

text \<open>
  The parser's state is its position in the token array; a parsing method returns its result
  and the new position, or the error it throws. \<open>bindP\<close> sequences two steps of the expression
  parser, whose results are optional (see below).
\<close>

type_synonym 'a presult = "error + 'a \<times> nat"

definition bindE :: "error + 'a \<Rightarrow> ('a \<Rightarrow> error + 'b) \<Rightarrow> error + 'b" where
  "bindE m f = (case m of Inl e \<Rightarrow> Inl e | Inr x \<Rightarrow> f x)"

definition bindP :: "(error + 'a) option \<Rightarrow> ('a \<Rightarrow> (error + 'b) option) \<Rightarrow> (error + 'b) option" where
  "bindP m f = (case m of None \<Rightarrow> None | Some (Inl e) \<Rightarrow> Some (Inl e) | Some (Inr x) \<Rightarrow> f x)"

definition peek :: "token list \<Rightarrow> nat \<Rightarrow> token option" where
  "peek tokens pos = (if pos < length tokens then Some (tokens ! pos) else None)"

definition match :: "token list \<Rightarrow> nat \<Rightarrow> tokenType \<Rightarrow> string option \<Rightarrow> bool \<times> nat" where
  "match tokens pos ty val =
     (case peek tokens pos of
        None \<Rightarrow> (False, pos)
      | Some t \<Rightarrow>
          if tok_type t = ty \<and>
             (case val of None \<Rightarrow> True | Some v \<Rightarrow> toUpperCase (tok_value t) = toUpperCase v)
          then (True, Suc pos) else (False, pos))"

definition expect :: "token list \<Rightarrow> nat \<Rightarrow> tokenType \<Rightarrow> string option \<Rightarrow> token presult" where
  "expect tokens pos ty val =
     (case peek tokens pos of
        None \<Rightarrow> Inl (ExpectedButEnd ty val)
      | Some t \<Rightarrow>
          if tok_type t \<noteq> ty \<or>
             (case val of None \<Rightarrow> False | Some v \<Rightarrow> toUpperCase (tok_value t) \<noteq> toUpperCase v)
          then Inl (ExpectedButGot ty val (tok_type t) (tok_value t))
          else Inr (t, Suc pos))"

subsection \<open>Expressions\<close>

text \<open>
  The precedence ladder, from \<^verbatim>\<open>parseMultiplicative\<close> up to \<^verbatim>\<open>parseLogicalOr\<close>. Each method
  parses a first operand and then loops while an operator of its level follows. The recursion of
  the source goes through \<^verbatim>\<open>parsePrimary\<close>, which calls \<^verbatim>\<open>parseExpression\<close> again after an
  opening parenthesis. It is modelled with fuel: the functions of the ladder take the parser of
  primary expressions as their parameter \<open>primary\<close>, a loop runs at most \<open>n\<close> times, and
  \<open>parsePrimary (Suc n)\<close> hands \<open>parsePrimary n\<close> to the ladder for a parenthesized expression.
  The result \<open>None\<close> means that the fuel ran out; \<open>Some (Inl e)\<close> is a thrown error.
\<close>

type_synonym exprParser = "token list \<Rightarrow> nat \<Rightarrow> (expr presult) option"

fun parseMultiplicative_loop :: "exprParser \<Rightarrow> nat \<Rightarrow> expr \<Rightarrow> token list \<Rightarrow> nat \<Rightarrow> (expr presult) option" where
  "parseMultiplicative_loop primary 0 left tokens pos = None"
| "parseMultiplicative_loop primary (Suc n) left tokens pos =
     (if fst (match tokens pos OPERATOR (Some ''*'')) then
        bindP (primary tokens (Suc pos))
          (\<lambda>(right, p). parseMultiplicative_loop primary n (BinaryExpression ''*'' left right) tokens p)
      else if fst (match tokens pos OPERATOR (Some ''/'')) then
        bindP (primary tokens (Suc pos))
          (\<lambda>(right, p). parseMultiplicative_loop primary n (BinaryExpression ''/'' left right) tokens p)
      else Some (Inr (left, pos)))"

definition parseMultiplicative :: "exprParser \<Rightarrow> nat \<Rightarrow> exprParser" where
  "parseMultiplicative primary n tokens pos =
     bindP (primary tokens pos) (\<lambda>(left, p). parseMultiplicative_loop primary n left tokens p)"

fun parseAdditive_loop :: "exprParser \<Rightarrow> nat \<Rightarrow> expr \<Rightarrow> token list \<Rightarrow> nat \<Rightarrow> (expr presult) option" where
  "parseAdditive_loop primary 0 left tokens pos = None"
| "parseAdditive_loop primary (Suc n) left tokens pos =
     (if fst (match tokens pos OPERATOR (Some ''+'')) then
        bindP (parseMultiplicative primary n tokens (Suc pos))
          (\<lambda>(right, p). parseAdditive_loop primary n (BinaryExpression ''+'' left right) tokens p)
      else if fst (match tokens pos OPERATOR (Some ''-'')) then
        bindP (parseMultiplicative primary n tokens (Suc pos))
          (\<lambda>(right, p). parseAdditive_loop primary n (BinaryExpression ''-'' left right) tokens p)
      else Some (Inr (left, pos)))"

definition parseAdditive :: "exprParser \<Rightarrow> nat \<Rightarrow> exprParser" where
  "parseAdditive primary n tokens pos =
     bindP (parseMultiplicative primary n tokens pos) (\<lambda>(left, p). parseAdditive_loop primary n left tokens p)"

fun parseRelational_loop :: "exprParser \<Rightarrow> nat \<Rightarrow> expr \<Rightarrow> token list \<Rightarrow> nat \<Rightarrow> (expr presult) option" where
  "parseRelational_loop primary 0 left tokens pos = None"
| "parseRelational_loop primary (Suc n) left tokens pos =
     (if fst (match tokens pos OPERATOR (Some ''<'')) then
        bindP (parseAdditive primary n tokens (Suc pos))
          (\<lambda>(right, p). parseRelational_loop primary n (BinaryExpression ''<'' left right) tokens p)
      else if fst (match tokens pos OPERATOR (Some ''>'')) then
        bindP (parseAdditive primary n tokens (Suc pos))
          (\<lambda>(right, p). parseRelational_loop primary n (BinaryExpression ''>'' left right) tokens p)
      else if fst (match tokens pos OPERATOR (Some ''<='')) then
        bindP (parseAdditive primary n tokens (Suc pos))
          (\<lambda>(right, p). parseRelational_loop primary n (BinaryExpression ''<='' left right) tokens p)
      else if fst (match tokens pos OPERATOR (Some ''>='')) then
        bindP (parseAdditive primary n tokens (Suc pos))
          (\<lambda>(right, p). parseRelational_loop primary n (BinaryExpression ''>='' left right) tokens p)
      else Some (Inr (left, pos)))"

definition parseRelational :: "exprParser \<Rightarrow> nat \<Rightarrow> exprParser" where
  "parseRelational primary n tokens pos =
     bindP (parseAdditive primary n tokens pos) (\<lambda>(left, p). parseRelational_loop primary n left tokens p)"

fun parseEquality_loop :: "exprParser \<Rightarrow> nat \<Rightarrow> expr \<Rightarrow> token list \<Rightarrow> nat \<Rightarrow> (expr presult) option" where
  "parseEquality_loop primary 0 left tokens pos = None"
| "parseEquality_loop primary (Suc n) left tokens pos =
     (if fst (match tokens pos OPERATOR (Some ''='')) then
        bindP (parseRelational primary n tokens (Suc pos))
          (\<lambda>(right, p). parseEquality_loop primary n (BinaryExpression ''='' left right) tokens p)
      else if fst (match tokens pos OPERATOR (Some ''<>'')) then
        bindP (parseRelational primary n tokens (Suc pos))
          (\<lambda>(right, p). parseEquality_loop primary n (BinaryExpression ''<>'' left right) tokens p)
      else Some (Inr (left, pos)))"

definition parseEquality :: "exprParser \<Rightarrow> nat \<Rightarrow> exprParser" where
  "parseEquality primary n tokens pos =
     bindP (parseRelational primary n tokens pos) (\<lambda>(left, p). parseEquality_loop primary n left tokens p)"

fun parseLogicalAnd_loop :: "exprParser \<Rightarrow> nat \<Rightarrow> expr \<Rightarrow> token list \<Rightarrow> nat \<Rightarrow> (expr presult) option" where
  "parseLogicalAnd_loop primary 0 left tokens pos = None"
| "parseLogicalAnd_loop primary (Suc n) left tokens pos =
     (if fst (match tokens pos KEYWORD (Some ''AND'')) then
        bindP (parseEquality primary n tokens (Suc pos))
          (\<lambda>(right, p). parseLogicalAnd_loop primary n (BinaryExpression ''AND'' left right) tokens p)
      else Some (Inr (left, pos)))"

definition parseLogicalAnd :: "exprParser \<Rightarrow> nat \<Rightarrow> exprParser" where
  "parseLogicalAnd primary n tokens pos =
     bindP (parseEquality primary n tokens pos) (\<lambda>(left, p). parseLogicalAnd_loop primary n left tokens p)"

fun parseLogicalOr_loop :: "exprParser \<Rightarrow> nat \<Rightarrow> expr \<Rightarrow> token list \<Rightarrow> nat \<Rightarrow> (expr presult) option" where
  "parseLogicalOr_loop primary 0 left tokens pos = None"
| "parseLogicalOr_loop primary (Suc n) left tokens pos =
     (if fst (match tokens pos KEYWORD (Some ''OR'')) then
        bindP (parseLogicalAnd primary n tokens (Suc pos))
          (\<lambda>(right, p). parseLogicalOr_loop primary n (BinaryExpression ''OR'' left right) tokens p)
      else Some (Inr (left, pos)))"

definition parseLogicalOr :: "exprParser \<Rightarrow> nat \<Rightarrow> exprParser" where
  "parseLogicalOr primary n tokens pos =
     bindP (parseLogicalAnd primary n tokens pos) (\<lambda>(left, p). parseLogicalOr_loop primary n left tokens p)"

primrec parsePrimary :: "nat \<Rightarrow> exprParser" where
  "parsePrimary 0 = (\<lambda>tokens pos. None)"
| "parsePrimary (Suc n) = (\<lambda>tokens pos.
     case peek tokens pos of
       None \<Rightarrow> Some (Inl UnexpectedEndOfInput)
     | Some t \<Rightarrow>
         if tok_type t = IDENTIFIER then Some (Inr (Identifier (tok_value t), Suc pos))
         else if tok_type t = NUMBER \<or> tok_type t = STRING then
           Some (Inr (Literal (tok_value t) (tok_type t), Suc pos))
         else if fst (match tokens pos PUNCTUATION (Some ''('')) then
           bindP (parseLogicalOr (parsePrimary n) n tokens (Suc pos))
             (\<lambda>(expression, p).
                case expect tokens p PUNCTUATION (Some '')'') of
                  Inl e \<Rightarrow> Some (Inl e)
                | Inr (_, p') \<Rightarrow> Some (Inr (expression, p')))
         else Some (Inl (UnexpectedToken (tok_type t) (tok_value t) pos)))"

definition parseExpression :: "nat \<Rightarrow> exprParser" where
  "parseExpression n = parseLogicalOr (parsePrimary n) n"

subsection \<open>Statements\<close>

text \<open>
  The \<^verbatim>\<open>do ... while (this.match(PUNCTUATION, ','))\<close> loops of the list parsers are recursive
  functions on the position and the list built so far; they terminate because every round
  consumes a token.
\<close>

lemma match_True_D: "fst (match tokens pos ty val) \<Longrightarrow> pos < length tokens"
  by (auto simp: match_def peek_def split: if_splits)

lemma expect_Inr_D: "expect tokens pos ty val = Inr (t, p) \<Longrightarrow> pos < length tokens \<and> p = Suc pos"
  by (auto simp: expect_def peek_def split: if_splits)

function parseColumnList_loop :: "token list \<Rightarrow> nat \<Rightarrow> string list \<Rightarrow> (string list) presult" where
  "parseColumnList_loop tokens pos columns =
     (case (if fst (match tokens pos OPERATOR (Some ''*''))
            then Inr (columns @ [''*''], Suc pos)
            else (case expect tokens pos IDENTIFIER None of
                    Inl e \<Rightarrow> Inl e
                  | Inr (column, p) \<Rightarrow> Inr (columns @ [tok_value column], p))) of
        Inl e \<Rightarrow> Inl e
      | Inr (columns', p) \<Rightarrow>
          if fst (match tokens p PUNCTUATION (Some '',''))
          then parseColumnList_loop tokens (Suc p) columns'
          else Inr (columns', p))"
  by pat_completeness auto
termination
  by (relation "measure (\<lambda>(tokens, pos, columns). length tokens - pos)")
     (auto split: if_splits sum.splits dest!: match_True_D expect_Inr_D)

declare parseColumnList_loop.simps [simp del]

definition parseColumnList :: "token list \<Rightarrow> nat \<Rightarrow> (string list) presult" where
  "parseColumnList tokens pos = parseColumnList_loop tokens pos []"

function parseIdentifierList_loop :: "token list \<Rightarrow> nat \<Rightarrow> string list \<Rightarrow> (string list) presult" where
  "parseIdentifierList_loop tokens pos identifiers =
     (case expect tokens pos IDENTIFIER None of
        Inl e \<Rightarrow> Inl e
      | Inr (identifier, p) \<Rightarrow>
          if fst (match tokens p PUNCTUATION (Some '',''))
          then parseIdentifierList_loop tokens (Suc p) (identifiers @ [tok_value identifier])
          else Inr (identifiers @ [tok_value identifier], p))"
  by pat_completeness auto
termination
  by (relation "measure (\<lambda>(tokens, pos, identifiers). length tokens - pos)")
     (auto dest!: match_True_D expect_Inr_D)

declare parseIdentifierList_loop.simps [simp del]

definition parseIdentifierList :: "token list \<Rightarrow> nat \<Rightarrow> (string list) presult" where
  "parseIdentifierList tokens pos = parseIdentifierList_loop tokens pos []"

definition parseValue_parser :: "token list \<Rightarrow> nat \<Rightarrow> token presult" where
  "parseValue_parser tokens pos =
     (case peek tokens pos of
        None \<Rightarrow> Inl UnexpectedEndOfInput
      | Some t \<Rightarrow>
          if tok_type t \<in> set [STRING, NUMBER, IDENTIFIER] then Inr (t, Suc pos)
          else Inl (UnexpectedToken (tok_type t) (tok_value t) pos))"

lemma parseValue_parser_Inr_D:
  "parseValue_parser tokens pos = Inr (t, p) \<Longrightarrow> pos < length tokens \<and> p = Suc pos"
  by (auto simp: parseValue_parser_def peek_def split: if_splits)

function parseValues_loop :: "token list \<Rightarrow> nat \<Rightarrow> token list \<Rightarrow> (token list) presult" where
  "parseValues_loop tokens pos vals =
     (case parseValue_parser tokens pos of
        Inl e \<Rightarrow> Inl e
      | Inr (v, p) \<Rightarrow>
          if fst (match tokens p PUNCTUATION (Some '',''))
          then parseValues_loop tokens (Suc p) (vals @ [v])
          else Inr (vals @ [v], p))"
  by pat_completeness auto
termination
  by (relation "measure (\<lambda>(tokens, pos, vals). length tokens - pos)")
     (auto dest!: match_True_D parseValue_parser_Inr_D)

declare parseValues_loop.simps [simp del]

lemma parseValues_loop_progress:
  "parseValues_loop tokens pos vals = Inr (vs, p) \<Longrightarrow> pos < p"
proof (induction tokens pos vals rule: parseValues_loop.induct)
  case (1 tokens pos vals)
  from "1.prems" obtain v p1 where v: "parseValue_parser tokens pos = Inr (v, p1)"
    by (subst (asm) parseValues_loop.simps) (auto split: sum.splits)
  then have p1: "p1 = Suc pos" by (auto dest: parseValue_parser_Inr_D)
  show ?case
  proof (cases "fst (match tokens p1 PUNCTUATION (Some '',''))")
    case True
    with "1.prems" v have "parseValues_loop tokens (Suc p1) (vals @ [v]) = Inr (vs, p)"
      by (subst (asm) parseValues_loop.simps) simp
    from "1.IH"[OF v refl True this] p1 show ?thesis by simp
  next
    case False
    with "1.prems" v p1 show ?thesis
      by (subst (asm) parseValues_loop.simps) auto
  qed
qed

function parseValuesList_loop :: "token list \<Rightarrow> nat \<Rightarrow> token list list \<Rightarrow> (token list list) presult" where
  "parseValuesList_loop tokens pos valuesList =
     (case expect tokens pos PUNCTUATION (Some ''('') of
        Inl e \<Rightarrow> Inl e
      | Inr (_, p1) \<Rightarrow>
          (case parseValues_loop tokens p1 [] of
             Inl e \<Rightarrow> Inl e
           | Inr (vals, p2) \<Rightarrow>
               (case expect tokens p2 PUNCTUATION (Some '')'') of
                  Inl e \<Rightarrow> Inl e
                | Inr (_, p3) \<Rightarrow>
                    if fst (match tokens p3 PUNCTUATION (Some '',''))
                    then parseValuesList_loop tokens (Suc p3) (valuesList @ [vals])
                    else Inr (valuesList @ [vals], p3))))"
  by pat_completeness auto
termination
  by (relation "measure (\<lambda>(tokens, pos, valuesList). length tokens - pos)")
     (auto dest!: match_True_D expect_Inr_D parseValues_loop_progress)

declare parseValuesList_loop.simps [simp del]

definition parseValuesList :: "token list \<Rightarrow> nat \<Rightarrow> (token list list) presult" where
  "parseValuesList tokens pos = parseValuesList_loop tokens pos []"

function parseAssignments_loop ::
  "token list \<Rightarrow> nat \<Rightarrow> (string \<times> token) list \<Rightarrow> ((string \<times> token) list) presult" where
  "parseAssignments_loop tokens pos assignments =
     (case expect tokens pos IDENTIFIER None of
        Inl e \<Rightarrow> Inl e
      | Inr (column, p1) \<Rightarrow>
          (case expect tokens p1 OPERATOR (Some ''='') of
             Inl e \<Rightarrow> Inl e
           | Inr (_, p2) \<Rightarrow>
               (case parseValue_parser tokens p2 of
                  Inl e \<Rightarrow> Inl e
                | Inr (v, p3) \<Rightarrow>
                    if fst (match tokens p3 PUNCTUATION (Some '',''))
                    then parseAssignments_loop tokens (Suc p3) (assignments @ [(tok_value column, v)])
                    else Inr (assignments @ [(tok_value column, v)], p3))))"
  by pat_completeness auto
termination
  by (relation "measure (\<lambda>(tokens, pos, assignments). length tokens - pos)")
     (auto dest!: match_True_D expect_Inr_D parseValue_parser_Inr_D)

declare parseAssignments_loop.simps [simp del]

definition parseAssignments :: "token list \<Rightarrow> nat \<Rightarrow> ((string \<times> token) list) presult" where
  "parseAssignments tokens pos = parseAssignments_loop tokens pos []"

text \<open>
  \<open>parseWhere\<close> is the optional WHERE clause that \<^verbatim>\<open>parseSelect\<close>, \<^verbatim>\<open>parseUpdate\<close> and
  \<^verbatim>\<open>parseDelete\<close> each end with. \<^verbatim>\<open>parseShow\<close> reads \<^verbatim>\<open>this.peek().value\<close> for its message,
  which is a host error when the input ends after SHOW.
\<close>

definition parseWhere :: "nat \<Rightarrow> token list \<Rightarrow> nat \<Rightarrow> ((expr option) presult) option" where
  "parseWhere n tokens pos =
     (if fst (match tokens pos KEYWORD (Some ''WHERE''))
      then bindP (parseExpression n tokens (Suc pos)) (\<lambda>(w, p). Some (Inr (Some w, p)))
      else Some (Inr (None, pos)))"

definition parseSelect :: "nat \<Rightarrow> token list \<Rightarrow> nat \<Rightarrow> (statement presult) option" where
  "parseSelect n tokens pos =
     (case expect tokens pos KEYWORD (Some ''SELECT'') of
        Inl e \<Rightarrow> Some (Inl e)
      | Inr (_, p1) \<Rightarrow>
     (case parseColumnList tokens p1 of
        Inl e \<Rightarrow> Some (Inl e)
      | Inr (columns, p2) \<Rightarrow>
     (case expect tokens p2 KEYWORD (Some ''FROM'') of
        Inl e \<Rightarrow> Some (Inl e)
      | Inr (_, p3) \<Rightarrow>
     (case expect tokens p3 IDENTIFIER None of
        Inl e \<Rightarrow> Some (Inl e)
      | Inr (table, p4) \<Rightarrow>
          bindP (parseWhere n tokens p4)
            (\<lambda>(w, p). Some (Inr (SelectStmt columns (tok_value table) w, p)))))))"

definition parseInsert :: "token list \<Rightarrow> nat \<Rightarrow> statement presult" where
  "parseInsert tokens pos =
     (case expect tokens pos KEYWORD (Some ''INSERT'') of
        Inl e \<Rightarrow> Inl e
      | Inr (_, p1) \<Rightarrow>
     (case expect tokens p1 KEYWORD (Some ''INTO'') of
        Inl e \<Rightarrow> Inl e
      | Inr (_, p2) \<Rightarrow>
     (case expect tokens p2 IDENTIFIER None of
        Inl e \<Rightarrow> Inl e
      | Inr (table, p3) \<Rightarrow>
     (case (if fst (match tokens p3 PUNCTUATION (Some ''(''))
            then (case parseIdentifierList tokens (Suc p3) of
                    Inl e \<Rightarrow> Inl e
                  | Inr (columns, p4) \<Rightarrow>
                      (case expect tokens p4 PUNCTUATION (Some '')'') of
                         Inl e \<Rightarrow> Inl e
                       | Inr (_, p5) \<Rightarrow> Inr (columns, p5)))
            else Inr ([], p3)) of
        Inl e \<Rightarrow> Inl e
      | Inr (columns, p6) \<Rightarrow>
     (case expect tokens p6 KEYWORD (Some ''VALUES'') of
        Inl e \<Rightarrow> Inl e
      | Inr (_, p7) \<Rightarrow>
     (case parseValuesList tokens p7 of
        Inl e \<Rightarrow> Inl e
      | Inr (valuesList, p8) \<Rightarrow>
          Inr (InsertStmt (tok_value table) columns valuesList, p8)))))))"

definition parseUpdate :: "nat \<Rightarrow> token list \<Rightarrow> nat \<Rightarrow> (statement presult) option" where
  "parseUpdate n tokens pos =
     (case expect tokens pos KEYWORD (Some ''UPDATE'') of
        Inl e \<Rightarrow> Some (Inl e)
      | Inr (_, p1) \<Rightarrow>
     (case expect tokens p1 IDENTIFIER None of
        Inl e \<Rightarrow> Some (Inl e)
      | Inr (table, p2) \<Rightarrow>
     (case expect tokens p2 KEYWORD (Some ''SET'') of
        Inl e \<Rightarrow> Some (Inl e)
      | Inr (_, p3) \<Rightarrow>
     (case parseAssignments tokens p3 of
        Inl e \<Rightarrow> Some (Inl e)
      | Inr (assignments, p4) \<Rightarrow>
          bindP (parseWhere n tokens p4)
            (\<lambda>(w, p). Some (Inr (UpdateStmt (tok_value table) assignments w, p)))))))"

definition parseDelete :: "nat \<Rightarrow> token list \<Rightarrow> nat \<Rightarrow> (statement presult) option" where
  "parseDelete n tokens pos =
     (case expect tokens pos KEYWORD (Some ''DELETE'') of
        Inl e \<Rightarrow> Some (Inl e)
      | Inr (_, p1) \<Rightarrow>
     (case expect tokens p1 KEYWORD (Some ''FROM'') of
        Inl e \<Rightarrow> Some (Inl e)
      | Inr (_, p2) \<Rightarrow>
     (case expect tokens p2 IDENTIFIER None of
        Inl e \<Rightarrow> Some (Inl e)
      | Inr (table, p3) \<Rightarrow>
          bindP (parseWhere n tokens p3)
            (\<lambda>(w, p). Some (Inr (DeleteStmt (tok_value table) w, p))))))"

definition parseShow :: "token list \<Rightarrow> nat \<Rightarrow> statement presult" where
  "parseShow tokens pos =
     (case expect tokens pos KEYWORD (Some ''SHOW'') of
        Inl e \<Rightarrow> Inl e
      | Inr (_, p1) \<Rightarrow>
          if fst (match tokens p1 KEYWORD (Some ''TABLES''))
          then Inr (ShowTablesStmt, snd (match tokens (Suc p1) PUNCTUATION (Some '';'')))
          else (case peek tokens p1 of
                  None \<Rightarrow> Inl (TypeError ''Cannot read properties of null'')
                | Some t \<Rightarrow> Inl (ExpectedTablesAfterShow (tok_value t))))"

definition parse :: "nat \<Rightarrow> token list \<Rightarrow> (statement presult) option" where
  "parse n tokens =
     (case peek tokens 0 of
        None \<Rightarrow> Some (Inl EmptyQuery)
      | Some t \<Rightarrow>
          let command = toUpperCase (tok_value t) in
          if command = ''SELECT'' then parseSelect n tokens 0
          else if command = ''INSERT'' then Some (parseInsert tokens 0)
          else if command = ''UPDATE'' then parseUpdate n tokens 0
          else if command = ''DELETE'' then parseDelete n tokens 0
          else if command = ''SHOW'' then Some (parseShow tokens 0)
          else Some (Inl (UnsupportedCommand (tok_value t))))"

definition parseSQL :: "nat \<Rightarrow> token list \<Rightarrow> (error + statement) option" where
  "parseSQL n tokens = bindP (parse n tokens) (\<lambda>(ast, p). Some (Inr ast))"

section \<open>Values, rows and the store\<close>

text \<open>
  The scalars of the editor are JavaScript values. Numbers are kept abstract (type \<open>'n\<close>):
  the functions of the host that the editor calls on them, \<^verbatim>\<open>parseFloat\<close>, the truth value of a
  number and the comparisons \<^verbatim>\<open>==\<close>, \<^verbatim>\<open>>\<close>, \<^verbatim>\<open><\<close>, \<^verbatim>\<open>>=\<close>, \<^verbatim>\<open><=\<close> with their coercions,
  are the fields of the record \<open>host\<close>, a parameter of every function below (\<^verbatim>\<open>!=\<close> is the
  negation of \<^verbatim>\<open>==\<close>). A row is an object: an association list from column names to
  values in the order of \<^verbatim>\<open>Object.keys\<close>, read with \<open>map_of\<close> and written with \<open>AList.update\<close>
  (an existing key keeps its place, a new key goes last). The store is the object
  \<^verbatim>\<open>mockDatabase\<close>, from table names to arrays of rows. Properties inherited from
  \<^verbatim>\<open>Object.prototype\<close> are not modelled: no table or column is named like one of them.
  A result is a row set or one of the three messages, with the count and the table name that
  the message interpolates.
\<close>

datatype 'n jsvalue = VNum 'n | VStr string | VBool bool | VNull | VUndefined

record 'n host =
  parseFloat :: "string \<Rightarrow> 'n"
  numTruthy :: "'n \<Rightarrow> bool"
  looseEq :: "'n jsvalue \<Rightarrow> 'n jsvalue \<Rightarrow> bool"
  greaterThan :: "'n jsvalue \<Rightarrow> 'n jsvalue \<Rightarrow> bool"
  lessThan :: "'n jsvalue \<Rightarrow> 'n jsvalue \<Rightarrow> bool"
  greaterEq :: "'n jsvalue \<Rightarrow> 'n jsvalue \<Rightarrow> bool"
  lessEq :: "'n jsvalue \<Rightarrow> 'n jsvalue \<Rightarrow> bool"

type_synonym 'n row = "(string \<times> 'n jsvalue) list"
type_synonym 'n table = "'n row list"
type_synonym 'n store = "(string \<times> 'n table) list"

datatype 'n result =
    RowSet "string list" "'n jsvalue list list"
  | Inserted nat string
  | Updated nat string
  | Deleted nat string

section \<open>The expression evaluator\<close>

text \<open>
  \<open>parseValue h kind nodeType val\<close> is \<^verbatim>\<open>parseValue(token)\<close>: \<open>kind\<close> is
  \<^verbatim>\<open>token.valueType || token.type\<close> and \<open>nodeType\<close> is \<^verbatim>\<open>token.type\<close>, which the error message
  shows. \<^verbatim>\<open>evaluateExpression\<close> reads both operands with \<^verbatim>\<open>getValue\<close> before it looks at
  the operator.
\<close>

definition truthy :: "'n host \<Rightarrow> 'n jsvalue \<Rightarrow> bool" where
  "truthy h v = (case v of
       VNum x \<Rightarrow> numTruthy h x
     | VStr s \<Rightarrow> s \<noteq> []
     | VBool b \<Rightarrow> b
     | VNull \<Rightarrow> False
     | VUndefined \<Rightarrow> False)"

definition typeName :: "tokenType \<Rightarrow> string" where
  "typeName ty = (case ty of
       KEYWORD \<Rightarrow> ''KEYWORD'' | IDENTIFIER \<Rightarrow> ''IDENTIFIER'' | STRING \<Rightarrow> ''STRING''
     | NUMBER \<Rightarrow> ''NUMBER'' | OPERATOR \<Rightarrow> ''OPERATOR'' | PUNCTUATION \<Rightarrow> ''PUNCTUATION''
     | WHITESPACE \<Rightarrow> ''WHITESPACE'' | ERROR \<Rightarrow> ''ERROR'')"

definition parseValue :: "'n host \<Rightarrow> tokenType \<Rightarrow> string \<Rightarrow> string \<Rightarrow> error + 'n jsvalue" where
  "parseValue h kind nodeType val =
     (case kind of
        NUMBER \<Rightarrow> Inr (VNum (parseFloat h val))
      | STRING \<Rightarrow> Inr (VStr val)
      | IDENTIFIER \<Rightarrow> Inr (VStr val)
      | _ \<Rightarrow> Inl (UnsupportedTokenType nodeType))"

definition parseValue_token :: "'n host \<Rightarrow> token \<Rightarrow> error + 'n jsvalue" where
  "parseValue_token h t = parseValue h (tok_type t) (typeName (tok_type t)) (tok_value t)"

definition property :: "'n row \<Rightarrow> string \<Rightarrow> 'n jsvalue" where
  "property row name = (case map_of row name of None \<Rightarrow> VUndefined | Some v \<Rightarrow> v)"

definition getValue :: "'n host \<Rightarrow> 'n row \<Rightarrow> expr \<Rightarrow> error + 'n jsvalue" where
  "getValue h row operand =
     (case operand of
        Literal val valueType \<Rightarrow> parseValue h valueType ''Literal'' val
      | Identifier name \<Rightarrow> Inr (property row name)
      | BinaryExpression _ _ _ \<Rightarrow> Inl (UnsupportedOperandType ''BinaryExpression''))"

fun evaluateExpression :: "'n host \<Rightarrow> 'n row \<Rightarrow> expr \<Rightarrow> error + 'n jsvalue" where
  "evaluateExpression h row (BinaryExpression operator l r) =
     (case getValue h row l of
        Inl e \<Rightarrow> Inl e
      | Inr left \<Rightarrow>
     (case getValue h row r of
        Inl e \<Rightarrow> Inl e
      | Inr right \<Rightarrow>
          if operator = ''='' then Inr (VBool (looseEq h left right))
          else if operator = ''<>'' then Inr (VBool (\<not> looseEq h left right))
          else if operator = ''>'' then Inr (VBool (greaterThan h left right))
          else if operator = ''<'' then Inr (VBool (lessThan h left right))
          else if operator = ''>='' then Inr (VBool (greaterEq h left right))
          else if operator = ''<='' then Inr (VBool (lessEq h left right))
          else if operator = ''AND'' then
            (case evaluateExpression h row l of
               Inl e \<Rightarrow> Inl e
             | Inr a \<Rightarrow> if truthy h a then evaluateExpression h row r else Inr a)
          else if operator = ''OR'' then
            (case evaluateExpression h row l of
               Inl e \<Rightarrow> Inl e
             | Inr a \<Rightarrow> if truthy h a then Inr a else evaluateExpression h row r)
          else Inl (UnsupportedOperator operator)))"
| "evaluateExpression h row (Literal val valueType) = parseValue h valueType ''Literal'' val"
| "evaluateExpression h row (Identifier name) = Inr (property row name)"

section \<open>The statement executor\<close>

text \<open>
  \<^verbatim>\<open>Array.prototype.filter\<close> and \<^verbatim>\<open>map\<close> with a callback that may throw: the first error ends
  the traversal. Every executing function returns its result or error together with the store
  after the call. \<^verbatim>\<open>setDB\<close> replaces the store by the updater's result; an error thrown before
  \<^verbatim>\<open>setDB\<close> leaves the store as the function's own assignments left it. \<^verbatim>\<open>executeUpdate\<close> assigns
  to the row objects of the store in place, so the rows it has changed before an error stay
  changed: \<open>applyAssignments\<close> and \<open>updateRows\<close> return the rows as they are when the error
  is thrown. Rows are not shared between tables.
\<close>

fun arrayFilter :: "('a \<Rightarrow> error + bool) \<Rightarrow> 'a list \<Rightarrow> error + 'a list" where
  "arrayFilter f [] = Inr []"
| "arrayFilter f (x # xs) =
     (case f x of
        Inl e \<Rightarrow> Inl e
      | Inr keep \<Rightarrow>
          (case arrayFilter f xs of
             Inl e \<Rightarrow> Inl e
           | Inr ys \<Rightarrow> Inr (if keep then x # ys else ys)))"

fun arrayMap :: "('a \<Rightarrow> error + 'b) \<Rightarrow> 'a list \<Rightarrow> error + 'b list" where
  "arrayMap f [] = Inr []"
| "arrayMap f (x # xs) =
     (case f x of
        Inl e \<Rightarrow> Inl e
      | Inr y \<Rightarrow>
          (case arrayMap f xs of
             Inl e \<Rightarrow> Inl e
           | Inr ys \<Rightarrow> Inr (y # ys)))"

definition executeSelect ::
  "'n host \<Rightarrow> string list \<Rightarrow> string \<Rightarrow> expr option \<Rightarrow> 'n store \<Rightarrow> error + 'n result" where
  "executeSelect h columns tableName wher db =
     (case map_of db tableName of
        None \<Rightarrow> Inl (TableNotFound tableName)
      | Some tableData \<Rightarrow>
     (case (case wher of
              None \<Rightarrow> Inr tableData
            | Some w \<Rightarrow>
                arrayFilter (\<lambda>row. map_sum id (truthy h) (evaluateExpression h row w)) tableData) of
        Inl e \<Rightarrow> Inl e
      | Inr rows \<Rightarrow>
     (case (if ''*'' \<in> set columns
            then (case tableData of
                    [] \<Rightarrow> Inl (TypeError ''Cannot convert undefined or null to object'')
                  | first # _ \<Rightarrow> Inr (map fst first))
            else Inr columns) of
        Inl e \<Rightarrow> Inl e
      | Inr cols \<Rightarrow>
          Inr (RowSet cols
                 (map (\<lambda>row. map (\<lambda>col. case map_of row col of
                                            Some v \<Rightarrow> v
                                          | None \<Rightarrow> VNull) cols) rows)))))"

fun setColumns :: "'n host \<Rightarrow> (string \<times> token) list \<Rightarrow> 'n row \<Rightarrow> error + 'n row" where
  "setColumns h [] record = Inr record"
| "setColumns h ((col, v) # rest) record =
     (case parseValue_token h v of
        Inl e \<Rightarrow> Inl e
      | Inr x \<Rightarrow> setColumns h rest (AList.update col x record))"

definition newRecord :: "'n host \<Rightarrow> string list \<Rightarrow> token list \<Rightarrow> error + 'n row" where
  "newRecord h columns vals =
     (if length columns \<noteq> length vals then Inl ColumnCountMismatch
      else setColumns h (zip columns vals) [])"

definition executeInsert ::
  "'n host \<Rightarrow> string \<Rightarrow> string list \<Rightarrow> token list list \<Rightarrow> 'n store
     \<Rightarrow> (error + 'n result) \<times> 'n store" where
  "executeInsert h tableName columns valuesList db =
     (case map_of db tableName of
        None \<Rightarrow> (Inl (TableNotFound tableName), db)
      | Some tableData \<Rightarrow>
     (case arrayMap (newRecord h columns) valuesList of
        Inl e \<Rightarrow> (Inl e, db)
      | Inr newRecords \<Rightarrow>
          (Inr (Inserted (length valuesList) tableName),
           AList.update tableName (tableData @ newRecords) db)))"

fun applyAssignments :: "'n host \<Rightarrow> (string \<times> token) list \<Rightarrow> 'n row \<Rightarrow> error option \<times> 'n row" where
  "applyAssignments h [] row = (None, row)"
| "applyAssignments h ((column, v) # rest) row =
     (case parseValue_token h v of
        Inl e \<Rightarrow> (Some e, row)
      | Inr x \<Rightarrow> applyAssignments h rest (AList.update column x row))"

fun updateRows ::
  "'n host \<Rightarrow> (string \<times> token) list \<Rightarrow> expr option \<Rightarrow> 'n table \<Rightarrow> error option \<times> 'n table \<times> nat" where
  "updateRows h assignments wher [] = (None, [], 0)"
| "updateRows h assignments wher (row # rest) =
     (case (case wher of
              None \<Rightarrow> Inr True
            | Some w \<Rightarrow> map_sum id (truthy h) (evaluateExpression h row w)) of
        Inl e \<Rightarrow> (Some e, row # rest, 0)
      | Inr selected \<Rightarrow>
          if selected then
            (case applyAssignments h assignments row of
               (Some e, row') \<Rightarrow> (Some e, row' # rest, 0)
             | (None, row') \<Rightarrow>
                 (case updateRows h assignments wher rest of
                    (err, rest', rowsAffected) \<Rightarrow> (err, row' # rest', Suc rowsAffected)))
          else
            (case updateRows h assignments wher rest of
               (err, rest', rowsAffected) \<Rightarrow> (err, row # rest', rowsAffected)))"

definition executeUpdate ::
  "'n host \<Rightarrow> string \<Rightarrow> (string \<times> token) list \<Rightarrow> expr option \<Rightarrow> 'n store
     \<Rightarrow> (error + 'n result) \<times> 'n store" where
  "executeUpdate h tableName assignments wher db =
     (case map_of db tableName of
        None \<Rightarrow> (Inl (TableNotFound tableName), db)
      | Some tableData \<Rightarrow>
     (case updateRows h assignments wher tableData of
        (Some e, mutated, _) \<Rightarrow> (Inl e, AList.update tableName mutated db)
      | (None, updatedTableData, rowsAffected) \<Rightarrow>
          (Inr (Updated rowsAffected tableName),
           AList.update tableName updatedTableData db)))"

definition executeDelete ::
  "'n host \<Rightarrow> string \<Rightarrow> expr option \<Rightarrow> 'n store \<Rightarrow> (error + 'n result) \<times> 'n store" where
  "executeDelete h tableName wher db =
     (case map_of db tableName of
        None \<Rightarrow> (Inl (TableNotFound tableName), db)
      | Some tableData \<Rightarrow>
          let initialLength = length tableData in
     (case arrayFilter
             (\<lambda>row. case wher of
                       Some w \<Rightarrow> map_sum id (\<lambda>v. \<not> truthy h v) (evaluateExpression h row w)
                     | None \<Rightarrow> Inr False) tableData of
        Inl e \<Rightarrow> (Inl e, db)
      | Inr updatedTableData \<Rightarrow>
          let rowsDeleted = initialLength - length updatedTableData in
          (Inr (Deleted rowsDeleted tableName),
           AList.update tableName updatedTableData db)))"

definition executeAST :: "'n host \<Rightarrow> statement \<Rightarrow> 'n store \<Rightarrow> (error + 'n result) \<times> 'n store" where
  "executeAST h ast db =
     (case ast of
        ShowTablesStmt \<Rightarrow>
          (Inr (RowSet [''Tables_in_database''] (map (\<lambda>table. [VStr table]) (map fst db))), db)
      | SelectStmt columns tableName wher \<Rightarrow> (executeSelect h columns tableName wher db, db)
      | InsertStmt tableName columns valuesList \<Rightarrow> executeInsert h tableName columns valuesList db
      | UpdateStmt tableName assignments wher \<Rightarrow> executeUpdate h tableName assignments wher db
      | DeleteStmt tableName wher \<Rightarrow> executeDelete h tableName wher db)"

definition executeQuery ::
  "nat \<Rightarrow> 'n host \<Rightarrow> string \<Rightarrow> 'n store \<Rightarrow> ((error + 'n result) \<times> 'n store) option" where
  "executeQuery n h query db =
     (case lexicalAnalysis query of
        Inl e \<Rightarrow> Some (Inl e, db)
      | Inr tokens \<Rightarrow>
          (case parseSQL n tokens of
             None \<Rightarrow> None
           | Some (Inl e) \<Rightarrow> Some (Inl e, db)
           | Some (Inr ast) \<Rightarrow> Some (executeAST h ast db)))"

section \<open>Statements as the grammar admits them\<close>

text \<open>
  The value positions of INSERT and UPDATE hold one token of kind STRING, NUMBER or IDENTIFIER
  (\<^verbatim>\<open>SQLParser.parseValue\<close> refuses every other kind), and a literal node of an expression is
  built from a NUMBER or STRING token. \<open>wellKinded\<close> says so of a statement. \<open>literalValue\<close> is
  the conversion of a value token in the specification's words: a Number-kind token becomes a
  number, any other its text. \<open>pairedRow\<close> pairs the columns with the converted values in
  order, a later value for a repeated column replacing the earlier one.
\<close>

definition valueKind :: "token \<Rightarrow> bool" where
  "valueKind t = (tok_type t \<in> set [STRING, NUMBER, IDENTIFIER])"

fun wellKinded_expr :: "expr \<Rightarrow> bool" where
  "wellKinded_expr (BinaryExpression operator l r) = (wellKinded_expr l \<and> wellKinded_expr r)"
| "wellKinded_expr (Identifier name) = True"
| "wellKinded_expr (Literal val valueType) = (valueType \<in> set [NUMBER, STRING])"

definition wellKinded_where :: "expr option \<Rightarrow> bool" where
  "wellKinded_where wher = (case wher of None \<Rightarrow> True | Some w \<Rightarrow> wellKinded_expr w)"

definition wellKinded :: "statement \<Rightarrow> bool" where
  "wellKinded ast =
     (case ast of
        SelectStmt columns tableName wher \<Rightarrow> wellKinded_where wher
      | InsertStmt tableName columns valuesList \<Rightarrow> list_all (list_all valueKind) valuesList
      | UpdateStmt tableName assignments wher \<Rightarrow>
          list_all (\<lambda>(column, v). valueKind v) assignments \<and> wellKinded_where wher
      | DeleteStmt tableName wher \<Rightarrow> wellKinded_where wher
      | ShowTablesStmt \<Rightarrow> True)"

definition literalValue :: "'n host \<Rightarrow> token \<Rightarrow> 'n jsvalue" where
  "literalValue h t =
     (if tok_type t = NUMBER then VNum (parseFloat h (tok_value t)) else VStr (tok_value t))"

definition pairedRow :: "'n host \<Rightarrow> string list \<Rightarrow> token list \<Rightarrow> 'n row" where
  "pairedRow h columns vals = AList.updates columns (map (literalValue h) vals) []"

text \<open>
  What the evaluator does with an expression can be read off its shape. \<open>exprFailure\<close> is the
  error that \<^verbatim>\<open>evaluateExpression\<close> throws on a well-kinded expression, if any: an operand that
  is itself a binary expression is refused by \<^verbatim>\<open>getValue\<close>, and an operator outside
  \<open>supportedOperators\<close> reaches the default branch of the \<^verbatim>\<open>switch\<close>.
\<close>

definition supportedOperators :: "string list" where
  "supportedOperators = [''='', ''<>'', ''>'', ''<'', ''>='', ''<='', ''AND'', ''OR'']"

fun isBinary :: "expr \<Rightarrow> bool" where
  "isBinary (BinaryExpression operator l r) = True"
| "isBinary (Identifier name) = False"
| "isBinary (Literal val valueType) = False"

fun exprFailure :: "expr \<Rightarrow> error option" where
  "exprFailure (BinaryExpression operator l r) =
     (if isBinary l \<or> isBinary r then Some (UnsupportedOperandType ''BinaryExpression'')
      else if operator \<in> set supportedOperators then None
      else Some (UnsupportedOperator operator))"
| "exprFailure (Identifier name) = None"
| "exprFailure (Literal val valueType) = None"

section \<open>A host and a store for examples\<close>

text \<open>
  An instance of the host on rational numbers, for evaluating examples: \<open>decimalValue\<close> reads an
  unsigned decimal lexeme, and values of different kinds compare as unequal and unordered. The
  store is the initial \<^verbatim>\<open>mockDatabase\<close> of the editor. The theorems below hold for every host.
\<close>

fun digitsValue :: "string \<Rightarrow> nat \<Rightarrow> nat" where
  "digitsValue [] acc = acc"
| "digitsValue (c # cs) acc = digitsValue cs (10 * acc + (of_char c - 48))"

definition decimalValue :: "string \<Rightarrow> rat" where
  "decimalValue s =
     (let ip = takeWhile isDigit s;
          r = dropWhile isDigit s;
          fp = (case r of c # r' \<Rightarrow> if c = CHR ''.'' then takeWhile isDigit r' else [] | [] \<Rightarrow> [])
      in of_nat (digitsValue ip 0) + of_nat (digitsValue fp 0) / of_nat (10 ^ length fp))"

definition sameKind :: "(rat \<Rightarrow> rat \<Rightarrow> bool) \<Rightarrow> (string \<Rightarrow> string \<Rightarrow> bool)
    \<Rightarrow> rat jsvalue \<Rightarrow> rat jsvalue \<Rightarrow> bool" where
  "sameKind onNum onStr a b =
     (case (a, b) of
        (VNum x, VNum y) \<Rightarrow> onNum x y
      | (VStr s, VStr t) \<Rightarrow> onStr s t
      | _ \<Rightarrow> False)"

definition exampleHost :: "rat host" where
  "exampleHost = \<lparr>
     parseFloat = decimalValue,
     numTruthy = (\<lambda>x. x \<noteq> 0),
     looseEq = (\<lambda>a b. a = b \<or> (a = VNull \<and> b = VUndefined) \<or> (a = VUndefined \<and> b = VNull)),
     greaterThan = sameKind (\<lambda>x y. y < x) (\<lambda>s t. False),
     lessThan = sameKind (\<lambda>x y. x < y) (\<lambda>s t. False),
     greaterEq = sameKind (\<lambda>x y. y \<le> x) (\<lambda>s t. s = t),
     lessEq = sameKind (\<lambda>x y. x \<le> y) (\<lambda>s t. s = t) \<rparr>"

definition mockDatabase :: "rat store" where
  "mockDatabase =
     [(''users'',
        [[(''id'', VNum 1), (''name'', VStr ''Alice''), (''email'', VStr ''alice@example.com'')],
         [(''id'', VNum 2), (''name'', VStr ''Bob''), (''email'', VStr ''bob@example.com'')]]),
      (''orders'', []),
      (''products'', [])]"

text \<open>
  The tokens of \<^verbatim>\<open>INSERT INTO users (id, name) VALUES (3, 'Charlie');\<close> and of
  \<^verbatim>\<open>INSERT INTO users VALUES (3);\<close>.
\<close>

definition insertTokens :: "token list" where
  "insertTokens =
     [\<lparr>tok_type = KEYWORD, tok_value = ''INSERT'', tok_position = 0\<rparr>,
      \<lparr>tok_type = KEYWORD, tok_value = ''INTO'', tok_position = 7\<rparr>,
      \<lparr>tok_type = IDENTIFIER, tok_value = ''users'', tok_position = 12\<rparr>,
      \<lparr>tok_type = PUNCTUATION, tok_value = ''('', tok_position = 18\<rparr>,
      \<lparr>tok_type = IDENTIFIER, tok_value = ''id'', tok_position = 19\<rparr>,
      \<lparr>tok_type = PUNCTUATION, tok_value = '','', tok_position = 21\<rparr>,
      \<lparr>tok_type = IDENTIFIER, tok_value = ''name'', tok_position = 23\<rparr>,
      \<lparr>tok_type = PUNCTUATION, tok_value = '')'', tok_position = 27\<rparr>,
      \<lparr>tok_type = KEYWORD, tok_value = ''VALUES'', tok_position = 29\<rparr>,
      \<lparr>tok_type = PUNCTUATION, tok_value = ''('', tok_position = 36\<rparr>,
      \<lparr>tok_type = NUMBER, tok_value = ''3'', tok_position = 37\<rparr>,
      \<lparr>tok_type = PUNCTUATION, tok_value = '','', tok_position = 38\<rparr>,
      \<lparr>tok_type = STRING, tok_value = ''Charlie'', tok_position = 40\<rparr>,
      \<lparr>tok_type = PUNCTUATION, tok_value = '')'', tok_position = 49\<rparr>,
      \<lparr>tok_type = PUNCTUATION, tok_value = '';'', tok_position = 50\<rparr>]"

definition insertTokens_noColumns :: "token list" where
  "insertTokens_noColumns =
     [\<lparr>tok_type = KEYWORD, tok_value = ''INSERT'', tok_position = 0\<rparr>,
      \<lparr>tok_type = KEYWORD, tok_value = ''INTO'', tok_position = 7\<rparr>,
      \<lparr>tok_type = IDENTIFIER, tok_value = ''users'', tok_position = 12\<rparr>,
      \<lparr>tok_type = KEYWORD, tok_value = ''VALUES'', tok_position = 18\<rparr>,
      \<lparr>tok_type = PUNCTUATION, tok_value = ''('', tok_position = 25\<rparr>,
      \<lparr>tok_type = NUMBER, tok_value = ''3'', tok_position = 26\<rparr>,
      \<lparr>tok_type = PUNCTUATION, tok_value = '')'', tok_position = 27\<rparr>,
      \<lparr>tok_type = PUNCTUATION, tok_value = '';'', tok_position = 28\<rparr>]"

text \<open>
  The tokens of \<^verbatim>\<open>DELETE FROM users\<close>, and of
  \<^verbatim>\<open>id = 1 AND (name = 'Alice' OR name = 'Bob')\<close>.
\<close>

definition deleteTokens :: "token list" where
  "deleteTokens =
     [\<lparr>tok_type = KEYWORD, tok_value = ''DELETE'', tok_position = 0\<rparr>,
      \<lparr>tok_type = KEYWORD, tok_value = ''FROM'', tok_position = 7\<rparr>,
      \<lparr>tok_type = IDENTIFIER, tok_value = ''users'', tok_position = 12\<rparr>]"

definition conditionTokens :: "token list" where
  "conditionTokens =
     [\<lparr>tok_type = IDENTIFIER, tok_value = ''id'', tok_position = 0\<rparr>,
      \<lparr>tok_type = OPERATOR, tok_value = ''='', tok_position = 3\<rparr>,
      \<lparr>tok_type = NUMBER, tok_value = ''1'', tok_position = 5\<rparr>,
      \<lparr>tok_type = KEYWORD, tok_value = ''AND'', tok_position = 7\<rparr>,
      \<lparr>tok_type = PUNCTUATION, tok_value = ''('', tok_position = 11\<rparr>,
      \<lparr>tok_type = IDENTIFIER, tok_value = ''name'', tok_position = 12\<rparr>,
      \<lparr>tok_type = OPERATOR, tok_value = ''='', tok_position = 17\<rparr>,
      \<lparr>tok_type = STRING, tok_value = ''Alice'', tok_position = 19\<rparr>,
      \<lparr>tok_type = KEYWORD, tok_value = ''OR'', tok_position = 27\<rparr>,
      \<lparr>tok_type = IDENTIFIER, tok_value = ''name'', tok_position = 30\<rparr>,
      \<lparr>tok_type = OPERATOR, tok_value = ''='', tok_position = 35\<rparr>,
      \<lparr>tok_type = STRING, tok_value = ''Bob'', tok_position = 37\<rparr>,
      \<lparr>tok_type = PUNCTUATION, tok_value = '')'', tok_position = 42\<rparr>]"

text \<open>
  The text of that condition and the tree the specification gives it; the tokens of
  \<^verbatim>\<open>1 - 2 - 3 * 4\<close>, the tree of that expression, and a semicolon after it.
\<close>

definition conditionText :: string where
  "conditionText =
     ''id = 1 AND (name = '' @ CHR 0x27 # ''Alice'' @ CHR 0x27 # '' OR name = '' @
     CHR 0x27 # ''Bob'' @ CHR 0x27 # '')''"

definition conditionTree :: expr where
  "conditionTree =
     BinaryExpression ''AND''
       (BinaryExpression ''='' (Identifier ''id'') (Literal ''1'' NUMBER))
       (BinaryExpression ''OR''
          (BinaryExpression ''='' (Identifier ''name'') (Literal ''Alice'' STRING))
          (BinaryExpression ''='' (Identifier ''name'') (Literal ''Bob'' STRING)))"

definition arithmeticTokens :: "token list" where
  "arithmeticTokens =
     [\<lparr>tok_type = NUMBER, tok_value = ''1'', tok_position = 0\<rparr>,
      \<lparr>tok_type = OPERATOR, tok_value = ''-'', tok_position = 2\<rparr>,
      \<lparr>tok_type = NUMBER, tok_value = ''2'', tok_position = 4\<rparr>,
      \<lparr>tok_type = OPERATOR, tok_value = ''-'', tok_position = 6\<rparr>,
      \<lparr>tok_type = NUMBER, tok_value = ''3'', tok_position = 8\<rparr>,
      \<lparr>tok_type = OPERATOR, tok_value = ''*'', tok_position = 10\<rparr>,
      \<lparr>tok_type = NUMBER, tok_value = ''4'', tok_position = 12\<rparr>]"

definition arithmeticTree :: expr where
  "arithmeticTree =
     BinaryExpression ''-''
       (BinaryExpression ''-'' (Literal ''1'' NUMBER) (Literal ''2'' NUMBER))
       (BinaryExpression ''*'' (Literal ''3'' NUMBER) (Literal ''4'' NUMBER))"

definition semicolonToken :: token where
  "semicolonToken = \<lparr>tok_type = PUNCTUATION, tok_value = '';'', tok_position = 13\<rparr>"

section \<open>Notions for the statements about the parser\<close>

subsection \<open>One loop for the six levels\<close>

text \<open>
  The six loops of the ladder differ in their operators and in the parser of their operands
  only. \<open>binaryLoop\<close> is that loop with both as parameters, \<open>binaryLevel\<close> the method around
  it; each function of the ladder is an instance, so a property of \<open>binaryLevel\<close> that the
  operand parser hands on holds for the whole ladder. \<open>firstMatch\<close> is the chain of
  \<^verbatim>\<open>if (this.match(...)) ... else if (this.match(...))\<close> of a loop: the operator of the first
  call of \<^verbatim>\<open>match\<close> that accepts the next token.
\<close>

fun firstMatch :: "token list \<Rightarrow> nat \<Rightarrow> (tokenType \<times> string) list \<Rightarrow> string option" where
  "firstMatch tokens pos [] = None"
| "firstMatch tokens pos ((ty, v) # ops) =
     (if fst (match tokens pos ty (Some v)) then Some v else firstMatch tokens pos ops)"

fun binaryLoop ::
  "(tokenType \<times> string) list \<Rightarrow> (nat \<Rightarrow> exprParser) \<Rightarrow> nat \<Rightarrow> expr \<Rightarrow> token list \<Rightarrow> nat
     \<Rightarrow> (expr presult) option" where
  "binaryLoop ops operand 0 left tokens pos = None"
| "binaryLoop ops operand (Suc n) left tokens pos =
     (case firstMatch tokens pos ops of
        None \<Rightarrow> Some (Inr (left, pos))
      | Some v \<Rightarrow>
          bindP (operand n tokens (Suc pos))
            (\<lambda>(right, p). binaryLoop ops operand n (BinaryExpression v left right) tokens p))"

definition binaryLevel ::
  "(tokenType \<times> string) list \<Rightarrow> (nat \<Rightarrow> exprParser) \<Rightarrow> nat \<Rightarrow> exprParser" where
  "binaryLevel ops operand n tokens pos =
     bindP (operand n tokens pos) (\<lambda>(left, p). binaryLoop ops operand n left tokens p)"

definition multiplicativeOps :: "(tokenType \<times> string) list" where
  "multiplicativeOps = [(OPERATOR, ''*''), (OPERATOR, ''/'')]"

definition additiveOps :: "(tokenType \<times> string) list" where
  "additiveOps = [(OPERATOR, ''+''), (OPERATOR, ''-'')]"

definition relationalOps :: "(tokenType \<times> string) list" where
  "relationalOps = [(OPERATOR, ''<''), (OPERATOR, ''>''), (OPERATOR, ''<=''), (OPERATOR, ''>='')]"

definition equalityOps :: "(tokenType \<times> string) list" where
  "equalityOps = [(OPERATOR, ''=''), (OPERATOR, ''<>'')]"

definition logicalAndOps :: "(tokenType \<times> string) list" where
  "logicalAndOps = [(KEYWORD, ''AND'')]"

definition logicalOrOps :: "(tokenType \<times> string) list" where
  "logicalOrOps = [(KEYWORD, ''OR'')]"

text \<open>
  The ladder as one function of the rung, numbered from the bottom: rung 0 is
  \<^verbatim>\<open>parsePrimary\<close>, rung 1 \<^verbatim>\<open>parseMultiplicative\<close>, and so on up to rung 6,
  \<^verbatim>\<open>parseLogicalOr\<close>. \<open>levelOps h\<close> are the operators of the loop of rung \<open>h + 1\<close>.
\<close>

fun levelOps :: "nat \<Rightarrow> (tokenType \<times> string) list" where
  "levelOps 0 = multiplicativeOps"
| "levelOps (Suc 0) = additiveOps"
| "levelOps (Suc (Suc 0)) = relationalOps"
| "levelOps (Suc (Suc (Suc 0))) = equalityOps"
| "levelOps (Suc (Suc (Suc (Suc 0)))) = logicalAndOps"
| "levelOps (Suc (Suc (Suc (Suc (Suc 0))))) = logicalOrOps"
| "levelOps (Suc (Suc (Suc (Suc (Suc (Suc h)))))) = []"

primrec ladder :: "nat \<Rightarrow> exprParser \<Rightarrow> nat \<Rightarrow> exprParser" where
  "ladder 0 primary = (\<lambda>n. primary)"
| "ladder (Suc h) primary = binaryLevel (levelOps h) (ladder h primary)"

text \<open>
  A parser of expressions produces well-kinded trees when every literal node it returns is of
  kind NUMBER or STRING.
\<close>

definition producesWellKinded :: "exprParser \<Rightarrow> bool" where
  "producesWellKinded q =
     (\<forall>tokens pos e p. q tokens pos = Some (Inr (e, p)) \<longrightarrow> wellKinded_expr e)"

subsection \<open>What a parser consumes\<close>

text \<open>
  \<open>sign ty v t\<close> says that \<^verbatim>\<open>match(ty, v)\<close> and \<^verbatim>\<open>expect(ty, v)\<close> accept the token \<open>t\<close>.
  \<open>consumed tokens pos p\<close> says that a method that started at \<open>pos\<close> and stopped at \<open>p\<close> went
  forward, stayed inside the token array, and consumed no semicolon; a parser of expressions
  \<open>advances\<close> when it does so and consumes a token at least.
\<close>

definition sign :: "tokenType \<Rightarrow> string \<Rightarrow> token \<Rightarrow> bool" where
  "sign ty v t = (tok_type t = ty \<and> toUpperCase (tok_value t) = toUpperCase v)"

definition isSemicolon :: "token \<Rightarrow> bool" where
  "isSemicolon t = (tok_type t = PUNCTUATION \<and> tok_value t = '';'')"

definition consumed :: "token list \<Rightarrow> nat \<Rightarrow> nat \<Rightarrow> bool" where
  "consumed tokens pos p =
     (pos \<le> p \<and> (pos \<le> length tokens \<longrightarrow> p \<le> length tokens) \<and>
      (\<forall>i. pos \<le> i \<and> i < p \<longrightarrow> \<not> isSemicolon (tokens ! i)))"

definition noSemicolon :: "tokenType \<Rightarrow> string option \<Rightarrow> bool" where
  "noSemicolon ty val =
     (ty \<noteq> PUNCTUATION \<or> (\<exists>v. val = Some v \<and> toUpperCase v \<noteq> '';''))"

definition advances :: "exprParser \<Rightarrow> bool" where
  "advances q =
     (\<forall>tokens pos e p. q tokens pos = Some (Inr (e, p)) \<longrightarrow> pos < p \<and> consumed tokens pos p)"

text \<open>
  The optional column list of \<^verbatim>\<open>parseInsert\<close>, between the table name and
  \<^verbatim>\<open>VALUES\<close>, as a function of its own.
\<close>

definition parseInsert_columns :: "token list \<Rightarrow> nat \<Rightarrow> (string list) presult" where
  "parseInsert_columns tokens p3 =
     (if fst (match tokens p3 PUNCTUATION (Some ''(''))
      then (case parseIdentifierList tokens (Suc p3) of
              Inl e \<Rightarrow> Inl e
            | Inr (columns, p4) \<Rightarrow>
                (case expect tokens p4 PUNCTUATION (Some '')'') of
                   Inl e \<Rightarrow> Inl e
                 | Inr (_, p5) \<Rightarrow> Inr (columns, p5)))
      else Inr ([], p3))"

subsection \<open>What a parser reads\<close>

text \<open>
  \<open>operatorSigns\<close> are the twelve binary operators of the ladder, and a token is an operator
  token when \<^verbatim>\<open>match\<close> accepts it for one of them. \<open>continuesAt signs tokens p\<close> says that
  there is a token at position \<open>p\<close> and that \<^verbatim>\<open>match\<close> accepts it for one of the \<open>signs\<close>.
  \<open>continuation ast\<close> are the signs that the parser tries at the position where it stops with
  the statement \<open>ast\<close>: behind the expression of a WHERE clause a binary operator; behind a
  SELECT or DELETE statement with no WHERE clause the keyword WHERE; behind an UPDATE statement
  with no WHERE clause a comma or the keyword WHERE; behind an INSERT statement a comma.
\<close>

definition operatorSigns :: "(tokenType \<times> string) list" where
  "operatorSigns =
     multiplicativeOps @ additiveOps @ relationalOps @ equalityOps @ logicalAndOps @ logicalOrOps"

definition operatorToken :: "token \<Rightarrow> bool" where
  "operatorToken t = (\<exists>(ty, v)\<in>set operatorSigns. sign ty v t)"

definition continuesAt :: "(tokenType \<times> string) list \<Rightarrow> token list \<Rightarrow> nat \<Rightarrow> bool" where
  "continuesAt signs tokens p =
     (case peek tokens p of None \<Rightarrow> False | Some t \<Rightarrow> \<exists>(ty, v)\<in>set signs. sign ty v t)"

definition commaSigns :: "(tokenType \<times> string) list" where
  "commaSigns = [(PUNCTUATION, '','')]"

definition whereSigns :: "expr option \<Rightarrow> (tokenType \<times> string) list" where
  "whereSigns w = (case w of None \<Rightarrow> [(KEYWORD, ''WHERE'')] | Some e \<Rightarrow> operatorSigns)"

definition continuation :: "statement \<Rightarrow> (tokenType \<times> string) list" where
  "continuation ast =
     (case ast of
        SelectStmt columns tableName w \<Rightarrow> whereSigns w
      | InsertStmt tableName columns valuesList \<Rightarrow> commaSigns
      | UpdateStmt tableName assignments w \<Rightarrow>
          (case w of None \<Rightarrow> commaSigns @ whereSigns None | Some e \<Rightarrow> whereSigns w)
      | DeleteStmt tableName w \<Rightarrow> whereSigns w
      | ShowTablesStmt \<Rightarrow> [])"

text \<open>
  \<open>window signs tokens tokens' p\<close> says that the array \<open>tokens'\<close> has the first \<open>p\<close> tokens of
  \<open>tokens\<close>, all of them there, and that its next token is that of \<open>tokens\<close> or is none of the
  \<open>signs\<close>. A parser of expressions is local for the \<open>signs\<close> when its result on one array is its
  result on every such array, for every position \<open>p\<close> at or behind the one it stopped at; it
  stops before the \<open>signs\<close> when the token at the position where it stops is none of them.
\<close>

definition window :: "(tokenType \<times> string) list \<Rightarrow> token list \<Rightarrow> token list \<Rightarrow> nat \<Rightarrow> bool" where
  "window signs tokens tokens' p =
     (p \<le> length tokens \<and> take p tokens' = take p tokens \<and>
      (peek tokens' p = peek tokens p \<or> \<not> continuesAt signs tokens' p))"

definition localParser :: "(tokenType \<times> string) list \<Rightarrow> exprParser \<Rightarrow> bool" where
  "localParser signs q =
     (\<forall>tokens tokens' pos e p1 p.
        q tokens pos = Some (Inr (e, p1)) \<longrightarrow> p1 \<le> p \<longrightarrow> window signs tokens tokens' p \<longrightarrow>
        q tokens' pos = Some (Inr (e, p1)))"

definition stopsBefore :: "(tokenType \<times> string) list \<Rightarrow> exprParser \<Rightarrow> bool" where
  "stopsBefore signs q =
     (\<forall>tokens pos e p. q tokens pos = Some (Inr (e, p)) \<longrightarrow> \<not> continuesAt signs tokens p)"

subsection \<open>The grammar of expressions\<close>

text \<open>
  The expression grammar as the specification words it, with the rungs numbered as above:
  rung 0 is \<open>primary\<close>, rung 1 \<open>multiplicative\<close>, rung 2 \<open>additive\<close>, rung 3
  \<open>relational\<close>, rung 4 \<open>equality\<close>, rung 5 \<open>and\<close> and rung 6 \<open>or\<close>, which is \<open>expr\<close>.
  \<open>derives h ts e\<close> says that the tokens \<open>ts\<close> form a phrase of rung \<open>h\<close> with the tree \<open>e\<close>:
  a phrase of a rung is a phrase of the rung below, or a phrase of the same rung, an operator
  of the rung and a phrase of the rung below (so each rung associates to the left, and an
  operator of a lower rung binds tighter); a parenthesized expression is a primary with the
  tree of the expression itself. \<open>derives\<close> follows the specification, not the code: it is
  what the parser is compared with.
\<close>

inductive derives :: "nat \<Rightarrow> token list \<Rightarrow> expr \<Rightarrow> bool" where
  d_identifier: "tok_type t = IDENTIFIER \<Longrightarrow> derives 0 [t] (Identifier (tok_value t))"
| d_literal: "tok_type t = NUMBER \<or> tok_type t = STRING \<Longrightarrow>
            derives 0 [t] (Literal (tok_value t) (tok_type t))"
| d_parenthesized: "sign PUNCTUATION ''('' t1 \<Longrightarrow> derives 6 ts e \<Longrightarrow> sign PUNCTUATION '')'' t2 \<Longrightarrow>
            derives 0 (t1 # ts @ [t2]) e"
| d_operand: "h < 6 \<Longrightarrow> derives h ts e \<Longrightarrow> derives (Suc h) ts e"
| d_binary: "h < 6 \<Longrightarrow> derives (Suc h) ts1 l \<Longrightarrow> (ty, v) \<in> set (levelOps h) \<Longrightarrow> sign ty v t \<Longrightarrow>
            derives h ts2 r \<Longrightarrow> derives (Suc h) (ts1 @ t # ts2) (BinaryExpression v l r)"

text \<open>
  \<open>phrase tokens pos p\<close> are the tokens from position \<open>pos\<close> up to, not including, position
  \<open>p\<close>. A parsing method is sound for rung \<open>h\<close> when every tree it returns is the tree of the
  tokens it consumed, read as a phrase of rung \<open>h\<close>. \<open>le_parser q q'\<close> says that \<open>q'\<close>
  returns what \<open>q\<close> returns wherever \<open>q\<close> has fuel enough to return.
\<close>

definition phrase :: "token list \<Rightarrow> nat \<Rightarrow> nat \<Rightarrow> token list" where
  "phrase tokens pos p = take (p - pos) (drop pos tokens)"

definition soundAt :: "nat \<Rightarrow> exprParser \<Rightarrow> bool" where
  "soundAt h q =
     (\<forall>tokens pos e p. q tokens pos = Some (Inr (e, p)) \<longrightarrow>
        pos < p \<and> p \<le> length tokens \<and> derives h (phrase tokens pos p) e)"

definition le_parser :: "exprParser \<Rightarrow> exprParser \<Rightarrow> bool" where
  "le_parser q q' = (\<forall>tokens pos r. q tokens pos = Some r \<longrightarrow> q' tokens pos = Some r)"

text \<open>
  \<open>parsesTo h tokens pos res\<close> says that the method of rung \<open>h\<close>, started at \<open>pos\<close>, returns
  \<open>res\<close> when it has fuel enough, and \<open>loopsTo h left tokens pos res\<close> the same of the
  \<^verbatim>\<open>while\<close> loop of rung \<open>h + 1\<close> entered at \<open>pos\<close> with the tree \<open>left\<close>.
  \<open>tightAt h tokens p\<close> says that the token at \<open>p\<close> is no operator of a rung up to \<open>h\<close>, so
  that the loops of these rungs stop there. A phrase of rung \<open>h\<close> with the tree \<open>e\<close> is
  \<open>complete\<close> when, wherever it stands in a token array, the method of rung \<open>h\<close> started at
  its first token returns whatever the loop of rung \<open>h\<close> returns when entered behind its last
  token with the tree \<open>e\<close>.
\<close>

definition parsesTo :: "nat \<Rightarrow> token list \<Rightarrow> nat \<Rightarrow> expr presult \<Rightarrow> bool" where
  "parsesTo h tokens pos res = (\<exists>n. ladder h (parsePrimary n) n tokens pos = Some res)"

definition loopsTo :: "nat \<Rightarrow> expr \<Rightarrow> token list \<Rightarrow> nat \<Rightarrow> expr presult \<Rightarrow> bool" where
  "loopsTo h left tokens pos res =
     (\<exists>n. binaryLoop (levelOps h) (ladder h (parsePrimary n)) n left tokens pos = Some res)"

fun contTo :: "nat \<Rightarrow> expr \<Rightarrow> token list \<Rightarrow> nat \<Rightarrow> expr presult \<Rightarrow> bool" where
  "contTo 0 e tokens p res = (res = Inr (e, p))"
| "contTo (Suc k) e tokens p res = loopsTo k e tokens p res"

definition tightAt :: "nat \<Rightarrow> token list \<Rightarrow> nat \<Rightarrow> bool" where
  "tightAt h tokens p = (\<forall>j<h. firstMatch tokens p (levelOps j) = None)"

definition complete :: "nat \<Rightarrow> token list \<Rightarrow> expr \<Rightarrow> bool" where
  "complete h ts e =
     (\<forall>pre rest res.
        tightAt (h - 1) (pre @ ts @ rest) (length pre + length ts) \<longrightarrow>
        contTo h e (pre @ ts @ rest) (length pre + length ts) res \<longrightarrow>
        parsesTo h (pre @ ts @ rest) (length pre) res)"

section \<open>The tokenizer: numbers and string literals\<close>

lemma drop_eq_ConsD:
  assumes "drop pos xs = y # ys"
  shows "pos < length xs \<and> xs ! pos = y \<and> drop (Suc pos) xs = ys"
proof -
  from assms have lt: "pos < length xs"
    by (cases "pos < length xs") auto
  then have "drop pos xs = xs ! pos # drop (Suc pos) xs"
    by (simp add: Cons_nth_drop_Suc)
  with assms lt show ?thesis by simp
qed

lemma peek_lexer_drop: "peek_lexer input pos = (case drop pos input of [] \<Rightarrow> None | c # _ \<Rightarrow> Some c)"
proof (cases "pos < length input")
  case True
  then have "drop pos input = input ! pos # drop (Suc pos) input"
    by (simp add: Cons_nth_drop_Suc)
  with True show ?thesis by (simp add: peek_lexer_def)
next
  case False
  then show ?thesis by (simp add: peek_lexer_def)
qed

lemma tokenizeNumber_loop_digits:
  "tokenizeNumber_loop input pos val True =
     (val @ takeWhile isDigit (drop pos input), pos + length (takeWhile isDigit (drop pos input)))"
proof (induction "length input - pos" arbitrary: pos val)
  case 0
  then have "drop pos input = []" by simp
  then show ?case
    by (subst tokenizeNumber_loop.simps) (simp add: peek_lexer_drop)
next
  case (Suc n)
  then have lt: "pos < length input" by simp
  then have d: "drop pos input = input ! pos # drop (Suc pos) input"
    by (simp add: Cons_nth_drop_Suc)
  from Suc have n: "n = length input - Suc pos" by simp
  show ?case
  proof (cases "isDigit (input ! pos)")
    case True
    then show ?thesis
      using Suc.hyps(1)[OF n, of "val @ [input ! pos]"] d isDigit_not_dot[OF True]
      by (subst tokenizeNumber_loop.simps) (simp add: peek_lexer_drop)
  next
    case False
    then show ?thesis
      using d by (subst tokenizeNumber_loop.simps) (simp add: peek_lexer_drop)
  qed
qed

lemma numberLexeme_Nil: "numberLexeme [] = []"
  by (simp add: numberLexeme_def)

lemma numberLexeme_digit: "isDigit c \<Longrightarrow> numberLexeme (c # s) = c # numberLexeme s"
  by (simp add: numberLexeme_def split: list.splits del: dropWhile_eq_Nil_conv)

lemma numberLexeme_dot: "numberLexeme (CHR ''.'' # s) = CHR ''.'' # takeWhile isDigit s"
  using isDigit_not_dot[of "CHR ''.''"] by (auto simp: numberLexeme_def)

lemma numberLexeme_other: "\<not> isDigit c \<Longrightarrow> c \<noteq> CHR ''.'' \<Longrightarrow> numberLexeme (c # s) = []"
  by (simp add: numberLexeme_def)

lemma tokenizeNumber_loop_lexeme:
  "tokenizeNumber_loop input pos val False =
     (val @ numberLexeme (drop pos input), pos + length (numberLexeme (drop pos input)))"
proof (induction "length input - pos" arbitrary: pos val)
  case 0
  then have "drop pos input = []" by simp
  then show ?case
    by (subst tokenizeNumber_loop.simps) (simp add: peek_lexer_drop numberLexeme_Nil)
next
  case (Suc n)
  then have lt: "pos < length input" by simp
  then have d: "drop pos input = input ! pos # drop (Suc pos) input"
    by (simp add: Cons_nth_drop_Suc)
  from Suc have n: "n = length input - Suc pos" by simp
  show ?case
  proof (cases "isDigit (input ! pos)")
    case True
    then show ?thesis
      using Suc.hyps(1)[OF n, of "val @ [input ! pos]"] d isDigit_not_dot[OF True]
      by (subst tokenizeNumber_loop.simps) (simp add: peek_lexer_drop numberLexeme_digit)
  next
    case False
    show ?thesis
    proof (cases "input ! pos = CHR ''.''")
      case True
      then show ?thesis
        using d False tokenizeNumber_loop_digits[of input "Suc pos" "val @ [input ! pos]"]
        by (subst tokenizeNumber_loop.simps) (simp add: peek_lexer_drop numberLexeme_dot)
    next
      case notdot: False
      then show ?thesis
        using d False by (subst tokenizeNumber_loop.simps) (simp add: peek_lexer_drop numberLexeme_other)
    qed
  qed
qed

lemma numberLexeme_chars: "c \<in> set (numberLexeme s) \<Longrightarrow> isDigit c \<or> c = CHR ''.''"
  by (auto simp: numberLexeme_def split: list.splits if_splits dest: set_takeWhileD)

lemma count_dot_digits: "count_list (takeWhile isDigit s) (CHR ''.'') = 0"
  by (induction s) (auto dest: isDigit_not_dot)

lemma numberLexeme_one_dot: "count_list (numberLexeme s) (CHR ''.'') \<le> 1"
  by (auto simp: numberLexeme_def count_dot_digits split: list.splits)

lemma numberLexeme_next_dot:
  "drop (length (numberLexeme s)) s = CHR ''.'' # r \<Longrightarrow> CHR ''.'' \<in> set (numberLexeme s)"
proof (induction s)
  case Nil
  then show ?case by simp
next
  case (Cons c s)
  show ?case
  proof (cases "isDigit c")
    case True
    with Cons show ?thesis by (simp add: numberLexeme_digit)
  next
    case False
    show ?thesis
    proof (cases "c = CHR ''.''")
      case True
      then show ?thesis by (simp add: numberLexeme_dot)
    next
      case notdot: False
      with False Cons.prems show ?thesis by (simp add: numberLexeme_other)
    qed
  qed
qed

lemma numberLexeme_next_not_digit:
  "drop (length (numberLexeme s)) s = c # r \<Longrightarrow> \<not> isDigit c"
proof (induction s)
  case Nil
  then show ?case by simp
next
  case (Cons a s)
  show ?case
  proof (cases "isDigit a")
    case True
    with Cons show ?thesis by (simp add: numberLexeme_digit)
  next
    case False
    show ?thesis
    proof (cases "a = CHR ''.''")
      case True
      have "s = takeWhile isDigit s @ dropWhile isDigit s" by simp
      then have "drop (length (takeWhile isDigit s)) s = dropWhile isDigit s"
        by (metis append_eq_conv_conj)
      with True Cons.prems have "dropWhile isDigit s = c # r"
        by (simp add: numberLexeme_dot)
      then show ?thesis
        by (metis hd_dropWhile list.sel(1) list.distinct(1))
    next
      case notdot: False
      with False Cons.prems show ?thesis by (simp add: numberLexeme_other)
    qed
  qed
qed

lemma analyze_loop_digit:
  assumes "peek_lexer input pos = Some c" and "isDigit c"
  shows "analyze_loop input pos toks =
         analyze_loop input (snd (tokenizeNumber input pos)) (toks @ [fst (tokenizeNumber input pos)])"
proof -
  from assms(2) have "\<not> isWhitespace c" and "\<not> isLetter c"
    by (auto simp: isDigit_def isWhitespace_def isLetter_def)
  with assms show ?thesis
    by (subst analyze_loop.simps) simp
qed

lemma analyze_loop_dot:
  assumes "peek_lexer input pos = Some (CHR ''.'')"
  shows "analyze_loop input pos toks = Inl (InvalidCharacter (CHR ''.'') pos)"
  using assms
  by (subst analyze_loop.simps)
     (simp add: isWhitespace_def isLetter_def isDigit_def OPERATORS_def)

text \<open>
  Claim C7. When a digit starts a lexeme at position \<open>pos\<close>, \<^verbatim>\<open>tokenizeNumber\<close> returns one
  NUMBER token whose value is the longest run of digits with at most one decimal point
  (\<open>numberLexeme\<close>), starting at \<open>pos\<close>, and stops right behind it; the main loop goes on from
  there with the token appended. The character that follows is not a digit. If it is a decimal
  point, then the lexeme already holds one (it is the second point), it has not been consumed,
  and the analysis of the input fails there with the error for an invalid character \<open>.\<close> at that
  position.
\<close>

theorem tokenizeNumber_second_decimal_point:
  assumes "peek_lexer input pos = Some c" and "isDigit c"
  shows "let v = numberLexeme (drop pos input);
             pos' = pos + length v;
             t = \<lparr>tok_type = NUMBER, tok_value = v, tok_position = pos\<rparr>
         in tokenizeNumber input pos = (t, pos')
          \<and> v \<noteq> [] \<and> (\<forall>d\<in>set v. isDigit d \<or> d = CHR ''.'')
          \<and> count_list v (CHR ''.'') \<le> 1
          \<and> (\<forall>d. peek_lexer input pos' = Some d \<longrightarrow> \<not> isDigit d)
          \<and> analyze_loop input pos toks = analyze_loop input pos' (toks @ [t])
          \<and> (peek_lexer input pos' = Some (CHR ''.'') \<longrightarrow>
                CHR ''.'' \<in> set v \<and>
                analyze_loop input pos toks = Inl (InvalidCharacter (CHR ''.'') pos'))"
proof -
  define v where "v = numberLexeme (drop pos input)"
  define pos' where "pos' = pos + length v"
  define t where "t = \<lparr>tok_type = NUMBER, tok_value = v, tok_position = pos\<rparr>"
  have tn: "tokenizeNumber input pos = (t, pos')"
    by (simp add: tokenizeNumber_def tokenizeNumber_loop_lexeme v_def pos'_def t_def)
  from assms(1) obtain r where d: "drop pos input = c # r"
    by (auto simp: peek_lexer_drop split: list.splits)
  with assms(2) have ne: "v \<noteq> []"
    by (simp add: v_def numberLexeme_digit)
  have chars: "\<forall>d\<in>set v. isDigit d \<or> d = CHR ''.''"
    using numberLexeme_chars by (auto simp: v_def)
  have one: "count_list v (CHR ''.'') \<le> 1"
    using numberLexeme_one_dot[of "drop pos input"] by (simp add: v_def)
  have dd: "drop pos' input = drop (length v) (drop pos input)"
    by (simp add: pos'_def add.commute)
  have nodigit: "\<forall>d. peek_lexer input pos' = Some d \<longrightarrow> \<not> isDigit d"
    using numberLexeme_next_not_digit[of "drop pos input"]
    by (auto simp: peek_lexer_drop dd v_def split: list.splits)
  have step: "analyze_loop input pos toks = analyze_loop input pos' (toks @ [t])"
    using analyze_loop_digit[OF assms, of toks] tn by simp
  have dot: "peek_lexer input pos' = Some (CHR ''.'') \<longrightarrow> CHR ''.'' \<in> set v
               \<and> analyze_loop input pos toks = Inl (InvalidCharacter (CHR ''.'') pos')"
  proof
    assume pk: "peek_lexer input pos' = Some (CHR ''.'')"
    then obtain r' where "drop (length v) (drop pos input) = CHR ''.'' # r'"
      by (auto simp: peek_lexer_drop dd split: list.splits)
    then have "CHR ''.'' \<in> set v"
      unfolding v_def by (rule numberLexeme_next_dot)
    moreover have "analyze_loop input pos toks = Inl (InvalidCharacter (CHR ''.'') pos')"
      using step analyze_loop_dot[OF pk] by simp
    ultimately show "CHR ''.'' \<in> set v
               \<and> analyze_loop input pos toks = Inl (InvalidCharacter (CHR ''.'') pos')" by simp
  qed
  from tn ne chars one nodigit step dot show ?thesis
    unfolding Let_def v_def[symmetric] pos'_def[symmetric] t_def[symmetric] by blast
qed

theorem tokenizeNumber_second_decimal_point_witness:
  "tokenizeNumber ''id = 1.25.7'' 5 =
     (\<lparr>tok_type = NUMBER, tok_value = ''1.25'', tok_position = 5\<rparr>, 9)
   \<and> lexicalAnalysis ''1.25.7'' = Inl (InvalidCharacter (CHR ''.'') 4)"
proof -
  have p: "peek_lexer ''id = 1.25.7'' 5 = Some (CHR ''1'')" by (simp add: peek_lexer_def)
  have d: "isDigit (CHR ''1'')" by (simp add: isDigit_def)
  have l: "numberLexeme (drop 5 ''id = 1.25.7'') = ''1.25''"
    by (simp add: numberLexeme_def isDigit_def)
  have p2: "peek_lexer ''1.25.7'' 0 = Some (CHR ''1'')" by (simp add: peek_lexer_def)
  have l2: "numberLexeme (drop 0 ''1.25.7'') = ''1.25''"
    by (simp add: numberLexeme_def isDigit_def)
  have p3: "peek_lexer ''1.25.7'' (0 + length ''1.25'') = Some (CHR ''.'')" by (simp add: peek_lexer_def)
  from tokenizeNumber_second_decimal_point[OF p d, of "[]"]
  have "tokenizeNumber ''id = 1.25.7'' 5 =
     (\<lparr>tok_type = NUMBER, tok_value = ''1.25'', tok_position = 5\<rparr>, 5 + length ''1.25'')"
    unfolding Let_def l by blast
  then have a: "tokenizeNumber ''id = 1.25.7'' 5 =
     (\<lparr>tok_type = NUMBER, tok_value = ''1.25'', tok_position = 5\<rparr>, 9)" by simp
  from tokenizeNumber_second_decimal_point[OF p2 d, of "[]"] p3
  have "analyze_loop ''1.25.7'' 0 [] = Inl (InvalidCharacter (CHR ''.'') (0 + length ''1.25''))"
    unfolding Let_def l2 by blast
  then have "lexicalAnalysis ''1.25.7'' = Inl (InvalidCharacter (CHR ''.'') 4)"
    by (simp add: lexicalAnalysis_def)
  with a show ?thesis by simp
qed

lemma escapeQuotes_Nil: "escapeQuotes [] = []"
  by (simp add: escapeQuotes_def)

lemma escapeQuotes_quote: "escapeQuotes (CHR 0x27 # body) = CHR 0x27 # CHR 0x27 # escapeQuotes body"
  by (simp add: escapeQuotes_def)

lemma escapeQuotes_other: "c \<noteq> CHR 0x27 \<Longrightarrow> escapeQuotes (c # body) = c # escapeQuotes body"
  by (simp add: escapeQuotes_def)

lemma tokenizeString_loop_closed:
  assumes "drop pos input = escapeQuotes body @ CHR 0x27 # rest"
      and "rest = [] \<or> hd rest \<noteq> CHR 0x27"
  shows "tokenizeString_loop input pos val = (val @ body, pos + length (escapeQuotes body))"
  using assms(1)
proof (induction body arbitrary: pos val)
  case Nil
  then have d: "drop pos input = CHR 0x27 # rest" by (simp add: escapeQuotes_Nil)
  from drop_eq_ConsD[OF d] have "drop (Suc pos) input = rest" by simp
  with assms(2) have "peek_lexer input (Suc pos) \<noteq> Some (CHR 0x27)"
    by (cases rest) (auto simp: peek_lexer_drop)
  with d show ?case
    by (subst tokenizeString_loop.simps) (simp add: peek_lexer_drop escapeQuotes_Nil)
next
  case (Cons c body)
  show ?case
  proof (cases "c = CHR 0x27")
    case True
    with Cons.prems have d: "drop pos input = CHR 0x27 # CHR 0x27 # escapeQuotes body @ CHR 0x27 # rest"
      by (simp add: escapeQuotes_quote)
    from drop_eq_ConsD[OF d] have d1: "drop (Suc pos) input = CHR 0x27 # escapeQuotes body @ CHR 0x27 # rest"
      by simp
    from drop_eq_ConsD[OF d1] have d2: "drop (Suc (Suc pos)) input = escapeQuotes body @ CHR 0x27 # rest"
      by simp
    show ?thesis
      using d d1 Cons.IH[OF d2, of "val @ [CHR 0x27]"] True
      by (subst tokenizeString_loop.simps) (simp add: peek_lexer_drop escapeQuotes_quote)
  next
    case False
    with Cons.prems have d: "drop pos input = c # escapeQuotes body @ CHR 0x27 # rest"
      by (simp add: escapeQuotes_other)
    from drop_eq_ConsD[OF d] have d1: "drop (Suc pos) input = escapeQuotes body @ CHR 0x27 # rest"
      by simp
    show ?thesis
      using d Cons.IH[OF d1, of "val @ [c]"] False
      by (subst tokenizeString_loop.simps) (simp add: peek_lexer_drop escapeQuotes_other)
  qed
qed

lemma tokenizeString_loop_open:
  assumes "drop pos input = escapeQuotes body"
  shows "tokenizeString_loop input pos val = (val @ body, pos + length (escapeQuotes body))
         \<and> peek_lexer input (pos + length (escapeQuotes body)) = None"
  using assms
proof (induction body arbitrary: pos val)
  case Nil
  then have d: "drop pos input = []" by (simp add: escapeQuotes_Nil)
  then show ?case
    by (subst tokenizeString_loop.simps) (simp add: peek_lexer_drop escapeQuotes_Nil)
next
  case (Cons c body)
  show ?case
  proof (cases "c = CHR 0x27")
    case True
    with Cons.prems have d: "drop pos input = CHR 0x27 # CHR 0x27 # escapeQuotes body"
      by (simp add: escapeQuotes_quote)
    from drop_eq_ConsD[OF d] have d1: "drop (Suc pos) input = CHR 0x27 # escapeQuotes body"
      by simp
    from drop_eq_ConsD[OF d1] have d2: "drop (Suc (Suc pos)) input = escapeQuotes body"
      by simp
    show ?thesis
      using d d1 Cons.IH[OF d2, of "val @ [CHR 0x27]"] True
      by (subst tokenizeString_loop.simps) (simp add: peek_lexer_drop escapeQuotes_quote)
  next
    case False
    with Cons.prems have d: "drop pos input = c # escapeQuotes body"
      by (simp add: escapeQuotes_other)
    from drop_eq_ConsD[OF d] have d1: "drop (Suc pos) input = escapeQuotes body"
      by simp
    show ?thesis
      using d Cons.IH[OF d1, of "val @ [c]"] False
      by (subst tokenizeString_loop.simps) (simp add: peek_lexer_drop escapeQuotes_other)
  qed
qed

lemma string_body_cases:
  "(\<exists>body. s = escapeQuotes body) \<or>
   (\<exists>body rest. s = escapeQuotes body @ CHR 0x27 # rest \<and> (rest = [] \<or> hd rest \<noteq> CHR 0x27))"
proof (induction s rule: induct_list012)
  case 1
  have "[] = escapeQuotes []" by (simp add: escapeQuotes_Nil)
  then show ?case by blast
next
  case (2 x)
  show ?case
  proof (cases "x = CHR 0x27")
    case True
    then have "[x] = escapeQuotes [] @ CHR 0x27 # []" by (simp add: escapeQuotes_Nil)
    then show ?thesis by blast
  next
    case False
    then have "[x] = escapeQuotes [x]" by (simp add: escapeQuotes_other escapeQuotes_Nil)
    then show ?thesis by blast
  qed
next
  case (3 x y zs)
  show ?case
  proof (cases "x = CHR 0x27")
    case xq: True
    show ?thesis
    proof (cases "y = CHR 0x27")
      case True
      from 3(1) show ?thesis
      proof
        assume "\<exists>body. zs = escapeQuotes body"
        then obtain body where "zs = escapeQuotes body" ..
        with xq True have "x # y # zs = escapeQuotes (CHR 0x27 # body)"
          by (simp add: escapeQuotes_quote)
        then show ?thesis by blast
      next
        assume "\<exists>body rest. zs = escapeQuotes body @ CHR 0x27 # rest \<and> (rest = [] \<or> hd rest \<noteq> CHR 0x27)"
        then obtain body rest where "zs = escapeQuotes body @ CHR 0x27 # rest"
          and r: "rest = [] \<or> hd rest \<noteq> CHR 0x27" by blast
        with xq True have "x # y # zs = escapeQuotes (CHR 0x27 # body) @ CHR 0x27 # rest"
          by (simp add: escapeQuotes_quote)
        with r show ?thesis by blast
      qed
    next
      case False
      with xq have "x # y # zs = escapeQuotes [] @ CHR 0x27 # (y # zs)" and "hd (y # zs) \<noteq> CHR 0x27"
        by (simp_all add: escapeQuotes_Nil)
      then show ?thesis by blast
    qed
  next
    case False
    from 3(2) show ?thesis
    proof
      assume "\<exists>body. y # zs = escapeQuotes body"
      then obtain body where "y # zs = escapeQuotes body" ..
      with False have "x # y # zs = escapeQuotes (x # body)"
        by (simp add: escapeQuotes_other)
      then show ?thesis by blast
    next
      assume "\<exists>body rest. y # zs = escapeQuotes body @ CHR 0x27 # rest \<and> (rest = [] \<or> hd rest \<noteq> CHR 0x27)"
      then obtain body rest where "y # zs = escapeQuotes body @ CHR 0x27 # rest"
        and r: "rest = [] \<or> hd rest \<noteq> CHR 0x27" by blast
      with False have "x # y # zs = escapeQuotes (x # body) @ CHR 0x27 # rest"
        by (simp add: escapeQuotes_other)
      with r show ?thesis by blast
    qed
  qed
qed

lemma analyze_loop_quote:
  assumes "peek_lexer input pos = Some (CHR 0x27)"
  shows "analyze_loop input pos toks =
         (case tokenizeString input pos of
            Inl e \<Rightarrow> Inl e
          | Inr (t, pos') \<Rightarrow> analyze_loop input pos' (toks @ [t]))"
  using assms
  by (subst analyze_loop.simps)
     (simp add: isWhitespace_def isLetter_def isDigit_def)

lemma analyze_loop_end:
  assumes "peek_lexer input pos = None"
  shows "analyze_loop input pos toks = Inr toks"
  using assms by (subst analyze_loop.simps) simp

text \<open>
  Claim C8. Where the main loop of the tokenizer meets a quote, at position \<open>pos\<close>, it enters
  \<^verbatim>\<open>tokenizeString\<close>. If the text behind the opening quote is the escaped form of a value
  \<open>body\<close> (each quote of the value doubled, every other character verbatim), followed by a quote
  that no further quote follows, then the result is the STRING token with the value \<open>body\<close> and
  the position \<open>pos\<close>, the analyzer stands behind the closing quote, and the main loop goes on
  from there with the token appended. If the text behind the opening quote is an escaped form up
  to the end of the input, with no closing quote, \<^verbatim>\<open>tokenizeString\<close> fails with the error for
  an unterminated string, which carries \<open>pos\<close>, the position of the opening quote, and so does
  the main loop, and with it the analysis of every input whose main loop arrives there. Every
  input is of one of the two forms. So the analysis of a closed literal alone returns its one
  token, and that of an open one fails with the error at position 0.
\<close>

theorem tokenizeString_literal:
  "(\<forall>body rest.
      drop (Suc pos) input = escapeQuotes body @ CHR 0x27 # rest \<and> (rest = [] \<or> hd rest \<noteq> CHR 0x27) \<longrightarrow>
      tokenizeString input pos =
        Inr (\<lparr>tok_type = STRING, tok_value = body, tok_position = pos\<rparr>,
             pos + length (escapeQuotes body) + 2) \<and>
      (peek_lexer input pos = Some (CHR 0x27) \<longrightarrow>
         analyze_loop input pos toks =
           analyze_loop input (pos + length (escapeQuotes body) + 2)
             (toks @ [\<lparr>tok_type = STRING, tok_value = body, tok_position = pos\<rparr>])))
   \<and> (\<forall>body. drop (Suc pos) input = escapeQuotes body \<longrightarrow>
        tokenizeString input pos = Inl (UnterminatedString pos) \<and>
        (peek_lexer input pos = Some (CHR 0x27) \<longrightarrow>
           analyze_loop input pos toks = Inl (UnterminatedString pos) \<and>
           (analyze_loop input 0 [] = analyze_loop input pos toks \<longrightarrow>
              lexicalAnalysis input = Inl (UnterminatedString pos))))
   \<and> ((\<exists>body. drop (Suc pos) input = escapeQuotes body) \<or>
      (\<exists>body rest. drop (Suc pos) input = escapeQuotes body @ CHR 0x27 # rest
                   \<and> (rest = [] \<or> hd rest \<noteq> CHR 0x27)))
   \<and> lexicalAnalysis (CHR 0x27 # escapeQuotes value @ [CHR 0x27]) =
        Inr [\<lparr>tok_type = STRING, tok_value = value, tok_position = 0\<rparr>]
   \<and> lexicalAnalysis (CHR 0x27 # escapeQuotes value) = Inl (UnterminatedString 0)"
proof -
  have closed: "tokenizeString inp q =
        Inr (\<lparr>tok_type = STRING, tok_value = body, tok_position = q\<rparr>,
             q + length (escapeQuotes body) + 2)"
    if a: "drop (Suc q) inp = escapeQuotes body @ CHR 0x27 # rest" "rest = [] \<or> hd rest \<noteq> CHR 0x27"
    for inp q body rest
  proof -
    from a have l: "tokenizeString_loop inp (Suc q) [] = ([] @ body, Suc q + length (escapeQuotes body))"
      by (intro tokenizeString_loop_closed) auto
    from a have "drop (Suc q + length (escapeQuotes body)) inp = CHR 0x27 # rest"
      by (metis add.commute append_eq_conv_conj drop_drop)
    then have "peek_lexer inp (Suc q + length (escapeQuotes body)) = Some (CHR 0x27)"
      by (simp add: peek_lexer_drop)
    with l show ?thesis by (simp add: tokenizeString_def)
  qed
  have opened: "tokenizeString inp q = Inl (UnterminatedString q)"
    if "drop (Suc q) inp = escapeQuotes body" for inp q body
    using tokenizeString_loop_open[OF that, of "[]"] by (simp add: tokenizeString_def)
  have 1: "\<forall>body rest.
      drop (Suc pos) input = escapeQuotes body @ CHR 0x27 # rest \<and> (rest = [] \<or> hd rest \<noteq> CHR 0x27) \<longrightarrow>
      tokenizeString input pos =
        Inr (\<lparr>tok_type = STRING, tok_value = body, tok_position = pos\<rparr>,
             pos + length (escapeQuotes body) + 2) \<and>
      (peek_lexer input pos = Some (CHR 0x27) \<longrightarrow>
         analyze_loop input pos toks =
           analyze_loop input (pos + length (escapeQuotes body) + 2)
             (toks @ [\<lparr>tok_type = STRING, tok_value = body, tok_position = pos\<rparr>]))"
  proof (intro allI impI)
    fix body rest
    assume a: "drop (Suc pos) input = escapeQuotes body @ CHR 0x27 # rest \<and> (rest = [] \<or> hd rest \<noteq> CHR 0x27)"
    then have t: "tokenizeString input pos =
        Inr (\<lparr>tok_type = STRING, tok_value = body, tok_position = pos\<rparr>,
             pos + length (escapeQuotes body) + 2)"
      using closed[of pos input body rest] by blast
    have "analyze_loop input pos toks =
           analyze_loop input (pos + length (escapeQuotes body) + 2)
             (toks @ [\<lparr>tok_type = STRING, tok_value = body, tok_position = pos\<rparr>])"
      if "peek_lexer input pos = Some (CHR 0x27)"
      using analyze_loop_quote[OF that, of toks] t by simp
    with t show "tokenizeString input pos =
        Inr (\<lparr>tok_type = STRING, tok_value = body, tok_position = pos\<rparr>,
             pos + length (escapeQuotes body) + 2) \<and>
      (peek_lexer input pos = Some (CHR 0x27) \<longrightarrow>
         analyze_loop input pos toks =
           analyze_loop input (pos + length (escapeQuotes body) + 2)
             (toks @ [\<lparr>tok_type = STRING, tok_value = body, tok_position = pos\<rparr>]))"
      by blast
  qed
  have 2: "\<forall>body. drop (Suc pos) input = escapeQuotes body \<longrightarrow>
        tokenizeString input pos = Inl (UnterminatedString pos) \<and>
        (peek_lexer input pos = Some (CHR 0x27) \<longrightarrow>
           analyze_loop input pos toks = Inl (UnterminatedString pos) \<and>
           (analyze_loop input 0 [] = analyze_loop input pos toks \<longrightarrow>
              lexicalAnalysis input = Inl (UnterminatedString pos)))"
  proof (intro allI impI)
    fix body
    assume a: "drop (Suc pos) input = escapeQuotes body"
    from opened[OF a] have t: "tokenizeString input pos = Inl (UnterminatedString pos)" .
    have "analyze_loop input pos toks = Inl (UnterminatedString pos) \<and>
           (analyze_loop input 0 [] = analyze_loop input pos toks \<longrightarrow>
              lexicalAnalysis input = Inl (UnterminatedString pos))"
      if "peek_lexer input pos = Some (CHR 0x27)"
      using analyze_loop_quote[OF that, of toks] t by (simp add: lexicalAnalysis_def)
    with t show "tokenizeString input pos = Inl (UnterminatedString pos) \<and>
        (peek_lexer input pos = Some (CHR 0x27) \<longrightarrow>
           analyze_loop input pos toks = Inl (UnterminatedString pos) \<and>
           (analyze_loop input 0 [] = analyze_loop input pos toks \<longrightarrow>
              lexicalAnalysis input = Inl (UnterminatedString pos)))"
      by blast
  qed
  have 3: "(\<exists>body. drop (Suc pos) input = escapeQuotes body) \<or>
      (\<exists>body rest. drop (Suc pos) input = escapeQuotes body @ CHR 0x27 # rest
                   \<and> (rest = [] \<or> hd rest \<noteq> CHR 0x27))"
    by (rule string_body_cases)
  have 4: "lexicalAnalysis (CHR 0x27 # escapeQuotes value @ [CHR 0x27]) =
        Inr [\<lparr>tok_type = STRING, tok_value = value, tok_position = 0\<rparr>]"
  proof -
    let ?inp = "CHR 0x27 # escapeQuotes value @ [CHR 0x27]"
    have q: "peek_lexer ?inp 0 = Some (CHR 0x27)" by (simp add: peek_lexer_def)
    have "drop (Suc 0) ?inp = escapeQuotes value @ CHR 0x27 # []" by simp
    from closed[OF this] have
      "tokenizeString ?inp 0 =
         Inr (\<lparr>tok_type = STRING, tok_value = value, tok_position = 0\<rparr>,
              0 + length (escapeQuotes value) + 2)" by simp
    with analyze_loop_quote[OF q, of "[]"] have
      "analyze_loop ?inp 0 [] =
         analyze_loop ?inp (length (escapeQuotes value) + 2)
           [\<lparr>tok_type = STRING, tok_value = value, tok_position = 0\<rparr>]" by simp
    moreover have "peek_lexer ?inp (length (escapeQuotes value) + 2) = None"
      by (simp add: peek_lexer_def)
    ultimately show ?thesis
      by (simp add: lexicalAnalysis_def analyze_loop_end)
  qed
  have 5: "lexicalAnalysis (CHR 0x27 # escapeQuotes value) = Inl (UnterminatedString 0)"
  proof -
    let ?inp = "CHR 0x27 # escapeQuotes value"
    have q: "peek_lexer ?inp 0 = Some (CHR 0x27)" by (simp add: peek_lexer_def)
    have "drop (Suc 0) ?inp = escapeQuotes value" by simp
    from opened[OF this] analyze_loop_quote[OF q, of "[]"] show ?thesis
      by (simp add: lexicalAnalysis_def)
  qed
  from 1 2 3 4 5 show ?thesis by blast
qed

theorem tokenizeString_literal_witness:
  "tokenizeString (''x = '' @ [CHR 0x27] @ ''it'' @ [CHR 0x27, CHR 0x27] @ ''s'' @ [CHR 0x27] @ '';'') 4 =
     Inr (\<lparr>tok_type = STRING, tok_value = ''it'' @ [CHR 0x27] @ ''s'', tok_position = 4\<rparr>, 11)
   \<and> tokenizeString (''x = '' @ [CHR 0x27] @ ''it'' @ [CHR 0x27, CHR 0x27] @ ''s'') 4 =
     Inl (UnterminatedString 4)
   \<and> lexicalAnalysis (''x = '' @ [CHR 0x27] @ ''it'' @ [CHR 0x27, CHR 0x27] @ ''s'' @ [CHR 0x27] @ '';'') =
     Inr [\<lparr>tok_type = IDENTIFIER, tok_value = ''x'', tok_position = 0\<rparr>,
          \<lparr>tok_type = OPERATOR, tok_value = ''='', tok_position = 2\<rparr>,
          \<lparr>tok_type = STRING, tok_value = ''it'' @ [CHR 0x27] @ ''s'', tok_position = 4\<rparr>,
          \<lparr>tok_type = PUNCTUATION, tok_value = '';'', tok_position = 11\<rparr>]
   \<and> lexicalAnalysis (''x = '' @ [CHR 0x27] @ ''it'' @ [CHR 0x27, CHR 0x27] @ ''s'') =
     Inl (UnterminatedString 4)"
proof -
  let ?closed = "''x = '' @ [CHR 0x27] @ ''it'' @ [CHR 0x27, CHR 0x27] @ ''s'' @ [CHR 0x27] @ '';''"
  let ?open = "''x = '' @ [CHR 0x27] @ ''it'' @ [CHR 0x27, CHR 0x27] @ ''s''"
  let ?body = "''it'' @ [CHR 0x27] @ ''s''"
  let ?x = "\<lparr>tok_type = IDENTIFIER, tok_value = ''x'', tok_position = 0\<rparr>"
  let ?eq = "\<lparr>tok_type = OPERATOR, tok_value = ''='', tok_position = 2\<rparr>"
  let ?str = "\<lparr>tok_type = STRING, tok_value = ?body, tok_position = 4\<rparr>"
  have e: "escapeQuotes ?body = ''it'' @ [CHR 0x27, CHR 0x27] @ ''s''"
    by (simp add: escapeQuotes_def)
  have c: "drop (Suc 4) ?closed = escapeQuotes ?body @ CHR 0x27 # '';''
           \<and> ('';'' = [] \<or> hd '';'' \<noteq> CHR 0x27)"
    unfolding e by simp
  have u: "drop (Suc 4) ?open = escapeQuotes ?body"
    unfolding e by simp
  have qc: "peek_lexer ?closed 4 = Some (CHR 0x27)" by (simp add: peek_lexer_def)
  have qo: "peek_lexer ?open 4 = Some (CHR 0x27)" by (simp add: peek_lexer_def)
  have len: "4 + length (escapeQuotes ?body) + 2 = 11" unfolding e by simp
  have startc: "analyze_loop ?closed 0 [] = analyze_loop ?closed 4 [?x, ?eq]"
    by code_simp
  have endc: "analyze_loop ?closed 11 ([?x, ?eq] @ [?str]) =
                Inr [?x, ?eq, ?str, \<lparr>tok_type = PUNCTUATION, tok_value = '';'', tok_position = 11\<rparr>]"
    by code_simp
  have starto: "analyze_loop ?open 0 [] = analyze_loop ?open 4 [?x, ?eq]"
    by code_simp
  from tokenizeString_literal[of 4 ?closed "[?x, ?eq]"] c qc
  have tc: "tokenizeString ?closed 4 = Inr (?str, 4 + length (escapeQuotes ?body) + 2)"
    and lc: "analyze_loop ?closed 4 [?x, ?eq] =
               analyze_loop ?closed (4 + length (escapeQuotes ?body) + 2) ([?x, ?eq] @ [?str])"
    by blast+
  from tokenizeString_literal[of 4 ?open "[?x, ?eq]"] u qo starto
  have uo: "tokenizeString ?open 4 = Inl (UnterminatedString 4)"
    and lo: "lexicalAnalysis ?open = Inl (UnterminatedString 4)"
    by blast+
  from lc endc startc have "lexicalAnalysis ?closed =
      Inr [?x, ?eq, ?str, \<lparr>tok_type = PUNCTUATION, tok_value = '';'', tok_position = 11\<rparr>]"
    unfolding len by (simp only: lexicalAnalysis_def)
  with tc uo lo show ?thesis unfolding len by simp
qed

section \<open>The executor: DELETE, SELECT, INSERT and failing statements\<close>

lemma arrayFilter_none: "arrayFilter (\<lambda>row. Inr False) xs = Inr []"
  by (induction xs) simp_all

text \<open>
  Claim C1, as amended. The claim says that a DELETE without WHERE removes no row. The callback
  of \<^verbatim>\<open>filter\<close> in \<^verbatim>\<open>executeDelete\<close> returns \<^verbatim>\<open>false\<close> for every row when \<^verbatim>\<open>ast.where\<close> is
  absent, and \<^verbatim>\<open>filter\<close> keeps the rows for which it returns \<^verbatim>\<open>true\<close>: executed against a store
  that holds the table, a DELETE without WHERE leaves the table empty, all other tables as they
  are, and reports the initial number of rows as the number deleted.
\<close>

theorem executeDelete_without_where_deletes_all:
  assumes "map_of db tableName = Some tableData"
  shows "executeDelete h tableName None db =
           (Inr (Deleted (length tableData) tableName), AList.update tableName [] db)"
  using assms by (simp add: executeDelete_def arrayFilter_none)

theorem executeDelete_without_where_deletes_all_witness:
  "map_of mockDatabase ''users'' =
     Some [[(''id'', VNum 1), (''name'', VStr ''Alice''), (''email'', VStr ''alice@example.com'')],
           [(''id'', VNum 2), (''name'', VStr ''Bob''), (''email'', VStr ''bob@example.com'')]]
   \<and> executeDelete exampleHost ''users'' None mockDatabase =
       (Inr (Deleted 2 ''users''), [(''users'', []), (''orders'', []), (''products'', [])])"
proof -
  have m: "map_of mockDatabase ''users'' =
     Some [[(''id'', VNum 1), (''name'', VStr ''Alice''), (''email'', VStr ''alice@example.com'')],
           [(''id'', VNum 2), (''name'', VStr ''Bob''), (''email'', VStr ''bob@example.com'')]]"
    by (simp add: mockDatabase_def)
  from executeDelete_without_where_deletes_all[OF m, of exampleHost] m
  show ?thesis by (simp add: mockDatabase_def)
qed

text \<open>
  The claim C1 as stated fails on the initial store: after \<^verbatim>\<open>DELETE FROM users\<close> the store has
  changed, the reported count is not 0, and the table \<open>users\<close> is empty.
\<close>

theorem executeDelete_without_where_counterexample:
  "snd (executeDelete exampleHost ''users'' None mockDatabase) \<noteq> mockDatabase
   \<and> fst (executeDelete exampleHost ''users'' None mockDatabase) \<noteq> Inr (Deleted 0 ''users'')
   \<and> map_of (snd (executeDelete exampleHost ''users'' None mockDatabase)) ''users'' = Some []"
  by (simp add: executeDelete_def mockDatabase_def)

text \<open>
  Claim C2. \<^verbatim>\<open>executeSelect\<close> has no case for an empty table: with \<open>*\<close> among the columns it
  evaluates \<^verbatim>\<open>Object.keys(tableData[0])\<close>, and \<^verbatim>\<open>tableData[0]\<close> is \<^verbatim>\<open>undefined\<close>. The statement
  fails, but with the host's TypeError, not with an error of the editor that says that the
  columns cannot be inferred.
\<close>

lemma executeSelect_wildcard_empty:
  assumes "''*'' \<in> set columns" and "map_of db tableName = Some []"
  shows "executeSelect h columns tableName wher db =
           Inl (TypeError ''Cannot convert undefined or null to object'')"
  using assms by (cases wher) (simp_all add: executeSelect_def)

text \<open>
  Claim C2 at the failing input: \<^verbatim>\<open>SELECT * FROM orders\<close> on the initial store, whose table
  \<open>orders\<close> is empty.
\<close>

theorem executeSelect_wildcard_empty_orders:
  "executeQuery 20 exampleHost ''SELECT * FROM orders;'' mockDatabase =
     Some (Inl (TypeError ''Cannot convert undefined or null to object''), mockDatabase)"
  by code_simp

subsection \<open>INSERT\<close>

lemma parseValue_token_valueKind:
  "valueKind t \<Longrightarrow> parseValue_token h t = Inr (literalValue h t)"
  by (cases "tok_type t") (auto simp: valueKind_def parseValue_token_def parseValue_def literalValue_def)

lemma setColumns_valueKind:
  "list_all valueKind (map snd kvs) \<Longrightarrow>
   setColumns h kvs r =
     Inr (fold (\<lambda>(c, v). AList.update c (literalValue h v)) kvs r)"
  by (induction kvs arbitrary: r) (auto simp: parseValue_token_valueKind)

lemma fold_update_updates:
  "length columns = length vals \<Longrightarrow>
   fold (\<lambda>(c, v). AList.update c (f v)) (zip columns vals) r =
     AList.updates columns (map f vals) r"
proof (induction columns arbitrary: vals r)
  case Nil
  then show ?case by simp
next
  case (Cons c columns)
  then obtain v vals' where "vals = v # vals'" by (cases vals) auto
  with Cons show ?case by simp
qed

lemma newRecord_valueKind:
  assumes "list_all valueKind vals"
  shows "newRecord h columns vals =
           (if length columns \<noteq> length vals then Inl ColumnCountMismatch
            else Inr (pairedRow h columns vals))"
proof (cases "length columns = length vals")
  case True
  from assms True have "list_all valueKind (map snd (zip columns vals))"
    by (simp add: list_all_iff)
  with True show ?thesis
    by (simp add: newRecord_def setColumns_valueKind fold_update_updates pairedRow_def)
next
  case False
  then show ?thesis by (simp add: newRecord_def)
qed

lemma arrayMap_all_Inr:
  "(\<And>x. x \<in> set xs \<Longrightarrow> f x = Inr (g x)) \<Longrightarrow> arrayMap f xs = Inr (map g xs)"
  by (induction xs) auto

lemma arrayMap_some_Inl:
  assumes "\<And>x. x \<in> set xs \<Longrightarrow> f x = Inl e \<or> (\<exists>y. f x = Inr y)"
      and "\<exists>x\<in>set xs. f x = Inl e"
  shows "arrayMap f xs = Inl e"
  using assms
proof (induction xs)
  case Nil
  then show ?case by simp
next
  case (Cons x xs)
  show ?case
  proof (cases "f x")
    case (Inl e')
    with Cons.prems(1)[of x] show ?thesis by auto
  next
    case (Inr y)
    with Cons.prems have "\<exists>x\<in>set xs. f x = Inl e" by auto
    moreover have "\<And>x. x \<in> set xs \<Longrightarrow> f x = Inl e \<or> (\<exists>y. f x = Inr y)"
      using Cons.prems(1) by auto
    ultimately have "arrayMap f xs = Inl e" by (rule Cons.IH[rotated])
    with Inr show ?thesis by simp
  qed
qed

lemma executeInsert_wellKinded:
  assumes "list_all (list_all valueKind) valuesList"
      and "map_of db tableName = Some tableData"
  shows "executeInsert h tableName columns valuesList db =
           (if \<exists>vals\<in>set valuesList. length vals \<noteq> length columns
            then (Inl ColumnCountMismatch, db)
            else (Inr (Inserted (length valuesList) tableName),
                  AList.update tableName
                    (tableData @ map (pairedRow h columns) valuesList) db))"
proof (cases "\<exists>vals\<in>set valuesList. length vals \<noteq> length columns")
  case True
  have "arrayMap (newRecord h columns) valuesList = Inl ColumnCountMismatch"
  proof (rule arrayMap_some_Inl)
    fix vals assume "vals \<in> set valuesList"
    with assms(1) have "list_all valueKind vals" by (simp add: list_all_iff)
    then show "newRecord h columns vals = Inl ColumnCountMismatch
               \<or> (\<exists>y. newRecord h columns vals = Inr y)"
      by (simp add: newRecord_valueKind)
  next
    from True obtain vals where v: "vals \<in> set valuesList" "length vals \<noteq> length columns"
      by blast
    with assms(1) have "list_all valueKind vals" by (simp add: list_all_iff)
    with v have "newRecord h columns vals = Inl ColumnCountMismatch"
      by (auto simp: newRecord_valueKind)
    with v show "\<exists>x\<in>set valuesList. newRecord h columns x = Inl ColumnCountMismatch" by blast
  qed
  with True assms(2) show ?thesis by (simp add: executeInsert_def)
next
  case False
  have "arrayMap (newRecord h columns) valuesList = Inr (map (pairedRow h columns) valuesList)"
  proof (rule arrayMap_all_Inr)
    fix vals assume v: "vals \<in> set valuesList"
    with assms(1) have "list_all valueKind vals" by (simp add: list_all_iff)
    with v False show "newRecord h columns vals = Inr (pairedRow h columns vals)"
      by (auto simp: newRecord_valueKind)
  qed
  with False assms(2) show ?thesis by (simp add: executeInsert_def)
qed

lemma update_absent_key: "k \<notin> fst ` set al \<Longrightarrow> AList.update k v al = al @ [(k, v)]"
  by (induction al) auto

lemma updates_distinct_append:
  "distinct ks \<Longrightarrow> set ks \<inter> fst ` set al = {} \<Longrightarrow> length ks = length xs \<Longrightarrow>
   AList.updates ks xs al = al @ zip ks xs"
proof (induction ks arbitrary: xs al)
  case Nil
  then show ?case by simp
next
  case (Cons k ks)
  then obtain x xs' where xs: "xs = x # xs'" by (cases xs) auto
  from Cons.prems have k: "k \<notin> fst ` set al" by auto
  have "AList.updates ks xs' (al @ [(k, x)]) = (al @ [(k, x)]) @ zip ks xs'"
    using Cons.prems xs by (intro Cons.IH) auto
  with k xs show ?case by (simp add: update_absent_key)
qed

lemma pairedRow_distinct:
  "distinct columns \<Longrightarrow> length columns = length vals \<Longrightarrow>
   pairedRow h columns vals = zip columns (map (literalValue h) vals)"
  using updates_distinct_append[of columns "[]" "map (literalValue h) vals"]
  by (simp add: pairedRow_def)

lemma parseValues_loop_valueKind:
  "parseValues_loop tokens pos vals = Inr (vs, p) \<Longrightarrow> list_all valueKind vals \<Longrightarrow>
   list_all valueKind vs \<and> vs \<noteq> []"
proof (induction tokens pos vals arbitrary: vs p rule: parseValues_loop.induct)
  case (1 tokens pos vals)
  from "1.prems"(1) obtain v p1 where v: "parseValue_parser tokens pos = Inr (v, p1)"
    by (subst (asm) parseValues_loop.simps) (auto split: sum.splits)
  then have k: "valueKind v"
    by (auto simp: parseValue_parser_def valueKind_def split: option.splits if_splits)
  show ?case
  proof (cases "fst (match tokens p1 PUNCTUATION (Some '',''))")
    case True
    with "1.prems"(1) v have "parseValues_loop tokens (Suc p1) (vals @ [v]) = Inr (vs, p)"
      by (subst (asm) parseValues_loop.simps) simp
    moreover from k "1.prems"(2) have "list_all valueKind (vals @ [v])" by simp
    ultimately show ?thesis by (rule "1.IH"[OF v refl True])
  next
    case False
    with "1.prems"(1) v have "vs = vals @ [v]"
      by (subst (asm) parseValues_loop.simps) auto
    with k "1.prems"(2) show ?thesis by simp
  qed
qed

lemma parseValuesList_loop_valueKind:
  "parseValuesList_loop tokens pos valuesList = Inr (vl, p) \<Longrightarrow>
   list_all (\<lambda>vals. list_all valueKind vals \<and> vals \<noteq> []) valuesList \<Longrightarrow>
   list_all (\<lambda>vals. list_all valueKind vals \<and> vals \<noteq> []) vl \<and> vl \<noteq> []"
proof (induction tokens pos valuesList arbitrary: vl p rule: parseValuesList_loop.induct)
  case (1 tokens pos valuesList)
  from "1.prems"(1) obtain t1 p1 where e1: "expect tokens pos PUNCTUATION (Some ''('') = Inr (t1, p1)"
    by (subst (asm) parseValuesList_loop.simps) (auto split: sum.splits)
  from "1.prems"(1) e1 obtain vals p2 where vs: "parseValues_loop tokens p1 [] = Inr (vals, p2)"
    by (subst (asm) parseValuesList_loop.simps) (auto split: sum.splits)
  from "1.prems"(1) e1 vs obtain t3 p3 where e3: "expect tokens p2 PUNCTUATION (Some '')'') = Inr (t3, p3)"
    by (subst (asm) parseValuesList_loop.simps) (auto split: sum.splits)
  from parseValues_loop_valueKind[OF vs] have k: "list_all valueKind vals \<and> vals \<noteq> []" by simp
  show ?case
  proof (cases "fst (match tokens p3 PUNCTUATION (Some '',''))")
    case True
    with "1.prems"(1) e1 vs e3
    have "parseValuesList_loop tokens (Suc p3) (valuesList @ [vals]) = Inr (vl, p)"
      by (subst (asm) parseValuesList_loop.simps) simp
    moreover from k "1.prems"(2)
    have "list_all (\<lambda>vals. list_all valueKind vals \<and> vals \<noteq> []) (valuesList @ [vals])" by simp
    ultimately show ?thesis
      by (rule "1.IH"[OF e1 refl vs refl e3 refl True])
  next
    case False
    with "1.prems"(1) e1 vs e3 have "vl = valuesList @ [vals]"
      by (subst (asm) parseValuesList_loop.simps) auto
    with k "1.prems"(2) show ?thesis by simp
  qed
qed

lemma parseInsert_valuesList:
  assumes "parseInsert tokens pos = Inr (InsertStmt tableName columns valuesList, pos')"
  shows "list_all (\<lambda>vals. list_all valueKind vals \<and> vals \<noteq> []) valuesList \<and> valuesList \<noteq> []"
proof -
  from assms obtain p7 where "parseValuesList tokens p7 = Inr (valuesList, pos')"
    by (auto simp: parseInsert_def split: sum.splits if_splits)
  then show ?thesis
    using parseValuesList_loop_valueKind[of tokens p7 "[]" valuesList pos']
    by (simp add: parseValuesList_def)
qed

lemma parseInsert_wellKinded:
  assumes "parseInsert tokens pos = Inr (InsertStmt tableName columns valuesList, pos')"
  shows "list_all (list_all valueKind) valuesList"
  using parseInsert_valuesList[OF assms] by (auto simp: list_all_iff)

lemma parseInsert_no_column_list:
  assumes "parseInsert tokens pos = Inr (InsertStmt tableName columns valuesList, pos')"
      and "\<not> fst (match tokens (pos + 3) PUNCTUATION (Some ''(''))"
  shows "columns = []"
  using assms
  by (auto simp: parseInsert_def eval_nat_numeral split: sum.splits if_splits dest!: expect_Inr_D)

text \<open>
  Claim C5. Take an INSERT statement as \<^verbatim>\<open>parseInsert\<close> returns it, executed against a store that
  holds the table. If some value tuple differs in length from the column list, the execution
  fails with the column-count error and the store is unchanged. Otherwise it reports as many
  records as there are tuples and appends, at the end of the table and in the order of the
  tuples, one row for each tuple: the columns paired in order with the converted values, where
  a Number-kind token is converted to a number and any other token to its text. All other
  tables are unchanged. With distinct columns the new row is exactly the list of the pairs.
\<close>

theorem executeInsert_explicit_columns:
  assumes "parseInsert tokens pos = Inr (InsertStmt tableName columns valuesList, pos')"
      and "map_of db tableName = Some tableData"
  shows "executeInsert h tableName columns valuesList db =
           (if \<exists>vals\<in>set valuesList. length vals \<noteq> length columns
            then (Inl ColumnCountMismatch, db)
            else (Inr (Inserted (length valuesList) tableName),
                  AList.update tableName
                    (tableData @ map (pairedRow h columns) valuesList) db))
         \<and> (distinct columns \<longrightarrow>
              (\<forall>vals\<in>set valuesList. length vals = length columns \<longrightarrow>
                 pairedRow h columns vals = zip columns (map (literalValue h) vals)))"
proof
  from parseInsert_wellKinded[OF assms(1)] assms(2)
  show "executeInsert h tableName columns valuesList db =
           (if \<exists>vals\<in>set valuesList. length vals \<noteq> length columns
            then (Inl ColumnCountMismatch, db)
            else (Inr (Inserted (length valuesList) tableName),
                  AList.update tableName
                    (tableData @ map (pairedRow h columns) valuesList) db))"
    by (rule executeInsert_wellKinded)
next
  show "distinct columns \<longrightarrow>
          (\<forall>vals\<in>set valuesList. length vals = length columns \<longrightarrow>
             pairedRow h columns vals = zip columns (map (literalValue h) vals))"
    by (auto simp: pairedRow_distinct)
qed

theorem executeInsert_explicit_columns_witness:
  "parseInsert insertTokens 0 =
     Inr (InsertStmt ''users'' [''id'', ''name'']
            [[\<lparr>tok_type = NUMBER, tok_value = ''3'', tok_position = 37\<rparr>,
              \<lparr>tok_type = STRING, tok_value = ''Charlie'', tok_position = 40\<rparr>]], 14)
   \<and> executeInsert exampleHost ''users'' [''id'', ''name'']
            [[\<lparr>tok_type = NUMBER, tok_value = ''3'', tok_position = 37\<rparr>,
              \<lparr>tok_type = STRING, tok_value = ''Charlie'', tok_position = 40\<rparr>]] mockDatabase =
       (Inr (Inserted 1 ''users''),
        [(''users'',
           [[(''id'', VNum 1), (''name'', VStr ''Alice''), (''email'', VStr ''alice@example.com'')],
            [(''id'', VNum 2), (''name'', VStr ''Bob''), (''email'', VStr ''bob@example.com'')],
            [(''id'', VNum 3), (''name'', VStr ''Charlie'')]]),
         (''orders'', []), (''products'', [])])"
proof -
  let ?vl = "[[\<lparr>tok_type = NUMBER, tok_value = ''3'', tok_position = 37\<rparr>,
               \<lparr>tok_type = STRING, tok_value = ''Charlie'', tok_position = 40\<rparr>]]"
  let ?rows = "[[(''id'', VNum 1), (''name'', VStr ''Alice''), (''email'', VStr ''alice@example.com'')],
                [(''id'', VNum (2::rat)), (''name'', VStr ''Bob''), (''email'', VStr ''bob@example.com'')]]"
  have p: "parseInsert insertTokens 0 = Inr (InsertStmt ''users'' [''id'', ''name''] ?vl, 14)"
    by code_simp
  have m: "map_of mockDatabase ''users'' = Some ?rows"
    by code_simp
  have r: "(if \<exists>vals\<in>set ?vl. length vals \<noteq> length [''id'', ''name'']
            then (Inl ColumnCountMismatch, mockDatabase)
            else (Inr (Inserted (length ?vl) ''users'' :: rat result),
                  AList.update ''users''
                    (?rows @ map (pairedRow exampleHost [''id'', ''name'']) ?vl) mockDatabase)) =
       (Inr (Inserted 1 ''users''),
        [(''users'',
           [[(''id'', VNum 1), (''name'', VStr ''Alice''), (''email'', VStr ''alice@example.com'')],
            [(''id'', VNum 2), (''name'', VStr ''Bob''), (''email'', VStr ''bob@example.com'')],
            [(''id'', VNum 3), (''name'', VStr ''Charlie'')]]),
         (''orders'', []), (''products'', [])])"
    by code_simp
  from executeInsert_explicit_columns[OF p m, of exampleHost] r p
  show ?thesis by simp
qed

text \<open>
  Claim C9. With an empty column list, an INSERT with a non-empty value tuple fails with the
  column-count error and leaves the store unchanged, whatever the tuples hold. An INSERT
  statement that \<^verbatim>\<open>parseInsert\<close> reads from tokens with no parenthesis behind the table name
  has an empty column list and only non-empty tuples, so its execution always fails so.
\<close>

theorem executeInsert_without_column_list:
  assumes "map_of db tableName = Some tableData"
  shows "((\<exists>vals\<in>set valuesList. vals \<noteq> []) \<longrightarrow>
            executeInsert h tableName [] valuesList db = (Inl ColumnCountMismatch, db))
       \<and> (parseInsert tokens pos = Inr (InsertStmt tableName columns valuesList, pos')
            \<and> \<not> fst (match tokens (pos + 3) PUNCTUATION (Some ''('')) \<longrightarrow>
            columns = [] \<and>
            executeInsert h tableName columns valuesList db = (Inl ColumnCountMismatch, db))"
proof (rule conjI)
  show "(\<exists>vals\<in>set valuesList. vals \<noteq> []) \<longrightarrow>
          executeInsert h tableName [] valuesList db = (Inl ColumnCountMismatch, db)"
  proof
    assume ne: "\<exists>vals\<in>set valuesList. vals \<noteq> []"
    have "arrayMap (newRecord h []) valuesList = Inl ColumnCountMismatch"
    proof (rule arrayMap_some_Inl)
      fix vals :: "token list"
      assume "vals \<in> set valuesList"
      show "newRecord h [] vals = Inl ColumnCountMismatch \<or> (\<exists>y. newRecord h [] vals = Inr y)"
        by (cases vals) (simp_all add: newRecord_def)
    next
      from ne obtain vals where "vals \<in> set valuesList" "vals \<noteq> []" by blast
      then show "\<exists>x\<in>set valuesList. newRecord h [] x = Inl ColumnCountMismatch"
        by (auto simp: newRecord_def)
    qed
    with assms show "executeInsert h tableName [] valuesList db = (Inl ColumnCountMismatch, db)"
      by (simp add: executeInsert_def)
  qed
next
  show "parseInsert tokens pos = Inr (InsertStmt tableName columns valuesList, pos')
            \<and> \<not> fst (match tokens (pos + 3) PUNCTUATION (Some ''('')) \<longrightarrow>
            columns = [] \<and>
            executeInsert h tableName columns valuesList db = (Inl ColumnCountMismatch, db)"
  proof
    assume a: "parseInsert tokens pos = Inr (InsertStmt tableName columns valuesList, pos')
              \<and> \<not> fst (match tokens (pos + 3) PUNCTUATION (Some ''(''))"
    then have c: "columns = []" by (auto dest: parseInsert_no_column_list)
    from a parseInsert_valuesList[of tokens pos tableName columns valuesList pos']
    have v: "\<exists>vals\<in>set valuesList. length vals \<noteq> length columns"
      unfolding c by (cases valuesList) auto
    from a have "list_all (list_all valueKind) valuesList"
      by (auto dest: parseInsert_wellKinded)
    from executeInsert_wellKinded[OF this assms, of h columns] v
    have "executeInsert h tableName columns valuesList db = (Inl ColumnCountMismatch, db)"
      by simp
    with c show "columns = [] \<and>
        executeInsert h tableName columns valuesList db = (Inl ColumnCountMismatch, db)" by simp
  qed
qed

theorem executeInsert_without_column_list_witness:
  "parseInsert insertTokens_noColumns 0 =
     Inr (InsertStmt ''users'' []
            [[\<lparr>tok_type = NUMBER, tok_value = ''3'', tok_position = 26\<rparr>]], 7)
   \<and> executeInsert exampleHost ''users'' []
        [[\<lparr>tok_type = NUMBER, tok_value = ''3'', tok_position = 26\<rparr>]] mockDatabase =
       (Inl ColumnCountMismatch, mockDatabase)"
proof -
  let ?vl = "[[\<lparr>tok_type = NUMBER, tok_value = ''3'', tok_position = 26\<rparr>]]"
  have p: "parseInsert insertTokens_noColumns 0 = Inr (InsertStmt ''users'' [] ?vl, 7)"
    by code_simp
  have m: "map_of mockDatabase ''users'' =
     Some [[(''id'', VNum 1), (''name'', VStr ''Alice''), (''email'', VStr ''alice@example.com'')],
           [(''id'', VNum 2), (''name'', VStr ''Bob''), (''email'', VStr ''bob@example.com'')]]"
    by code_simp
  have n: "\<not> fst (match insertTokens_noColumns (0 + 3) PUNCTUATION (Some ''(''))"
    by code_simp
  from executeInsert_without_column_list[OF m, of ?vl exampleHost insertTokens_noColumns 0 "[]" 7] p n
  show ?thesis by simp
qed

subsection \<open>Failing statements\<close>

lemma getValue_wellKinded:
  assumes "wellKinded_expr e"
  shows "(isBinary e \<longrightarrow> getValue h row e = Inl (UnsupportedOperandType ''BinaryExpression''))
       \<and> (\<not> isBinary e \<longrightarrow> (\<exists>v. getValue h row e = Inr v))"
  using assms by (cases e) (auto simp: getValue_def parseValue_def)

lemma evaluateExpression_leaf:
  assumes "wellKinded_expr e" and "\<not> isBinary e"
  shows "\<exists>v. evaluateExpression h row e = Inr v"
  using assms by (cases e) (auto simp: parseValue_def)

lemma evaluateExpression_exprFailure:
  assumes "wellKinded_expr e"
  shows "case exprFailure e of
           Some err \<Rightarrow> evaluateExpression h row e = Inl err
         | None \<Rightarrow> (\<exists>v. evaluateExpression h row e = Inr v)"
proof (cases e)
  case (BinaryExpression operator l r)
  with assms have wl: "wellKinded_expr l" and wr: "wellKinded_expr r" by simp_all
  show ?thesis
  proof (cases "isBinary l")
    case True
    with getValue_wellKinded[OF wl, of h row] BinaryExpression show ?thesis by simp
  next
    case lf: False
    then obtain a where a: "getValue h row l = Inr a"
      using getValue_wellKinded[OF wl, of h row] by blast
    show ?thesis
    proof (cases "isBinary r")
      case True
      with getValue_wellKinded[OF wr, of h row] a lf BinaryExpression show ?thesis by simp
    next
      case rf: False
      then obtain b where b: "getValue h row r = Inr b"
        using getValue_wellKinded[OF wr, of h row] by blast
      from evaluateExpression_leaf[OF wl lf, of h row] obtain x where
        x: "evaluateExpression h row l = Inr x" ..
      from evaluateExpression_leaf[OF wr rf, of h row] obtain y where
        y: "evaluateExpression h row r = Inr y" ..
      show ?thesis
      proof (cases "operator \<in> set supportedOperators")
        case True
        with BinaryExpression lf rf a b x y show ?thesis
          by (auto simp: supportedOperators_def)
      next
        case False
        with BinaryExpression lf rf a b show ?thesis
          by (auto simp: supportedOperators_def)
      qed
    qed
  qed
next
  case (Identifier name)
  then show ?thesis by simp
next
  case (Literal val valueType)
  with assms show ?thesis by (auto simp: parseValue_def)
qed

lemma applyAssignments_valueKind:
  "list_all (\<lambda>(column, v). valueKind v) assignments \<Longrightarrow>
   fst (applyAssignments h assignments row) = None"
  by (induction assignments arbitrary: row) (auto simp: parseValue_token_valueKind)

lemma updateRows_no_error:
  assumes "list_all (\<lambda>(column, v). valueKind v) assignments"
      and "\<And>w row. wher = Some w \<Longrightarrow> \<exists>v. evaluateExpression h row w = Inr v"
  shows "fst (updateRows h assignments wher rows) = None"
proof (induction rows)
  case Nil
  then show ?case by simp
next
  case (Cons row rows)
  obtain e' row' where ap: "applyAssignments h assignments row = (e', row')"
    by (cases "applyAssignments h assignments row")
  with applyAssignments_valueKind[OF assms(1), of h row] have e': "e' = None" by simp
  show ?case
  proof (cases wher)
    case None
    with Cons ap e' show ?thesis by (auto split: prod.splits)
  next
    case (Some w)
    from assms(2)[OF Some, of row] obtain v where "evaluateExpression h row w = Inr v" ..
    with Cons ap e' Some show ?thesis by (auto split: prod.splits)
  qed
qed

lemma updateRows_first_error:
  assumes "\<And>row. evaluateExpression h row w = Inl err"
  shows "updateRows h assignments (Some w) rows =
           (if rows = [] then (None, [], 0) else (Some err, rows, 0))"
  using assms by (cases rows) simp_all

lemma updateRows_wellKinded:
  assumes "list_all (\<lambda>(column, v). valueKind v) assignments"
      and "wellKinded_where wher"
      and "updateRows h assignments wher rows = (Some e, rows', n)"
  shows "rows' = rows"
proof (cases wher)
  case None
  have "fst (updateRows h assignments wher rows) = None"
    using None by (intro updateRows_no_error[OF assms(1)]) simp
  with assms(3) show ?thesis by simp
next
  case (Some w)
  with assms(2) have wk: "wellKinded_expr w" by (simp add: wellKinded_where_def)
  show ?thesis
  proof (cases "exprFailure w")
    case None
    have ok: "\<And>w' row. wher = Some w' \<Longrightarrow> \<exists>v. evaluateExpression h row w' = Inr v"
    proof -
      fix w' row assume "wher = Some w'"
      with Some have "w' = w" by simp
      with evaluateExpression_exprFailure[OF wk, of h row] None
      show "\<exists>v. evaluateExpression h row w' = Inr v" by simp
    qed
    have "fst (updateRows h assignments wher rows) = None"
      by (rule updateRows_no_error[OF assms(1)]) (rule ok)
    with assms(3) show ?thesis by simp
  next
    case (Some err)
    have "\<And>row. evaluateExpression h row w = Inl err"
      using evaluateExpression_exprFailure[OF wk] Some by simp
    from updateRows_first_error[OF this, of assignments rows] assms(3) \<open>wher = Some w\<close>
    show ?thesis by (auto split: if_splits)
  qed
qed

lemma executeInsert_error_store: "fst (executeInsert h t cs vl db) = Inl e \<Longrightarrow> snd (executeInsert h t cs vl db) = db"
  by (auto simp: executeInsert_def split: option.splits sum.splits)

lemma executeDelete_error_store: "fst (executeDelete h t w db) = Inl e \<Longrightarrow> snd (executeDelete h t w db) = db"
  by (auto simp: executeDelete_def Let_def split: option.splits sum.splits)

lemma executeUpdate_error_store:
  assumes "list_all (\<lambda>(column, v). valueKind v) assignments"
      and "wellKinded_where wher"
      and "fst (executeUpdate h t assignments wher db) = Inl e"
  shows "snd (executeUpdate h t assignments wher db) = db"
proof (cases "map_of db t")
  case None
  then show ?thesis by (simp add: executeUpdate_def)
next
  case (Some tableData)
  obtain err rows' n where u: "updateRows h assignments wher tableData = (err, rows', n)"
    by (cases "updateRows h assignments wher tableData")
  with assms(3) Some obtain e' where e': "err = Some e'"
    by (cases err) (auto simp: executeUpdate_def)
  with updateRows_wellKinded[OF assms(1,2), of h tableData e' rows' n] u
  have "rows' = tableData" by simp
  with u e' Some show ?thesis
    by (simp add: executeUpdate_def AList.update_triv)
qed

text \<open>
  \<^verbatim>\<open>executeUpdate\<close> assigns to the rows of the store while it traverses them, so an error
  thrown after the first assignment would leave changed rows behind. On a well-kinded statement
  no such error exists: the values convert without error, and an error of the WHERE clause does
  not depend on the row, so it is thrown at the first row, before any assignment.
\<close>

lemma executeAST_error_store:
  assumes "wellKinded ast"
      and "fst (executeAST h ast db) = Inl e"
  shows "snd (executeAST h ast db) = db"
proof (cases ast)
  case (SelectStmt columns tableName wher)
  then show ?thesis by (simp add: executeAST_def)
next
  case (InsertStmt tableName columns valuesList)
  with assms(2) show ?thesis
    by (simp add: executeAST_def executeInsert_error_store)
next
  case (UpdateStmt tableName assignments wher)
  with assms show ?thesis
    by (simp add: executeAST_def wellKinded_def executeUpdate_error_store)
next
  case (DeleteStmt tableName wher)
  with assms(2) show ?thesis
    by (simp add: executeAST_def executeDelete_error_store)
next
  case ShowTablesStmt
  then show ?thesis by (simp add: executeAST_def)
qed

section \<open>The parser: one loop for the six levels\<close>

text \<open>
  Each function of the ladder is an instance of \<open>binaryLevel\<close>, and each of its loops an
  instance of \<open>binaryLoop\<close>.
\<close>

lemma parseMultiplicative_loop_binaryLoop:
  "parseMultiplicative_loop primary n left tokens pos =
   binaryLoop multiplicativeOps (\<lambda>_. primary) n left tokens pos"
  by (induction n arbitrary: left pos) (simp_all add: multiplicativeOps_def split_def)

lemma parseMultiplicative_binaryLevel:
  "parseMultiplicative primary = binaryLevel multiplicativeOps (\<lambda>_. primary)"
  by (intro ext) (simp add: parseMultiplicative_def binaryLevel_def parseMultiplicative_loop_binaryLoop)

lemma parseAdditive_loop_binaryLoop:
  "parseAdditive_loop primary n left tokens pos =
   binaryLoop additiveOps (parseMultiplicative primary) n left tokens pos"
  by (induction n arbitrary: left pos) (simp_all add: additiveOps_def split_def)

lemma parseAdditive_binaryLevel:
  "parseAdditive primary = binaryLevel additiveOps (parseMultiplicative primary)"
  by (intro ext) (simp add: parseAdditive_def binaryLevel_def parseAdditive_loop_binaryLoop)

lemma parseRelational_loop_binaryLoop:
  "parseRelational_loop primary n left tokens pos =
   binaryLoop relationalOps (parseAdditive primary) n left tokens pos"
  by (induction n arbitrary: left pos) (simp_all add: relationalOps_def split_def)

lemma parseRelational_binaryLevel:
  "parseRelational primary = binaryLevel relationalOps (parseAdditive primary)"
  by (intro ext) (simp add: parseRelational_def binaryLevel_def parseRelational_loop_binaryLoop)

lemma parseEquality_loop_binaryLoop:
  "parseEquality_loop primary n left tokens pos =
   binaryLoop equalityOps (parseRelational primary) n left tokens pos"
  by (induction n arbitrary: left pos) (simp_all add: equalityOps_def split_def)

lemma parseEquality_binaryLevel:
  "parseEquality primary = binaryLevel equalityOps (parseRelational primary)"
  by (intro ext) (simp add: parseEquality_def binaryLevel_def parseEquality_loop_binaryLoop)

lemma parseLogicalAnd_loop_binaryLoop:
  "parseLogicalAnd_loop primary n left tokens pos =
   binaryLoop logicalAndOps (parseEquality primary) n left tokens pos"
  by (induction n arbitrary: left pos) (simp_all add: logicalAndOps_def split_def)

lemma parseLogicalAnd_binaryLevel:
  "parseLogicalAnd primary = binaryLevel logicalAndOps (parseEquality primary)"
  by (intro ext) (simp add: parseLogicalAnd_def binaryLevel_def parseLogicalAnd_loop_binaryLoop)

lemma parseLogicalOr_loop_binaryLoop:
  "parseLogicalOr_loop primary n left tokens pos =
   binaryLoop logicalOrOps (parseLogicalAnd primary) n left tokens pos"
  by (induction n arbitrary: left pos) (simp_all add: logicalOrOps_def split_def)

lemma parseLogicalOr_binaryLevel:
  "parseLogicalOr primary = binaryLevel logicalOrOps (parseLogicalAnd primary)"
  by (intro ext) (simp add: parseLogicalOr_def binaryLevel_def parseLogicalOr_loop_binaryLoop)

lemmas ladder_binaryLevel =
  parseMultiplicative_binaryLevel parseAdditive_binaryLevel parseRelational_binaryLevel
  parseEquality_binaryLevel parseLogicalAnd_binaryLevel parseLogicalOr_binaryLevel

subsection \<open>The parser returns well-kinded statements\<close>

lemma producesWellKindedD:
  "producesWellKinded q \<Longrightarrow> q tokens pos = Some (Inr (e, p)) \<Longrightarrow> wellKinded_expr e"
  unfolding producesWellKinded_def by blast

lemma bindP_Some_Inr:
  "bindP m f = Some (Inr y) \<longleftrightarrow> (\<exists>x. m = Some (Inr x) \<and> f x = Some (Inr y))"
  by (auto simp: bindP_def split: option.splits sum.splits)

lemma binaryLoop_wellKinded:
  assumes "\<And>n. producesWellKinded (operand n)"
  shows "binaryLoop ops operand n left tokens pos = Some (Inr (e, p)) \<Longrightarrow>
         wellKinded_expr left \<Longrightarrow> wellKinded_expr e"
proof (induction n arbitrary: left pos)
  case 0
  then show ?case by simp
next
  case (Suc n)
  show ?case
  proof (cases "firstMatch tokens pos ops")
    case None
    with Suc.prems show ?thesis by simp
  next
    case (Some v)
    with Suc.prems(1) obtain right p1 where
      r: "operand n tokens (Suc pos) = Some (Inr (right, p1))" and
      l: "binaryLoop ops operand n (BinaryExpression v left right) tokens p1 = Some (Inr (e, p))"
      by (auto simp: bindP_Some_Inr)
    from assms r have "wellKinded_expr right" by (rule producesWellKindedD)
    with Suc.prems(2) have "wellKinded_expr (BinaryExpression v left right)" by simp
    with l show ?thesis by (rule Suc.IH)
  qed
qed

lemma binaryLevel_wellKinded:
  assumes "\<And>n. producesWellKinded (operand n)"
  shows "producesWellKinded (binaryLevel ops operand n)"
  unfolding producesWellKinded_def
proof (intro allI impI)
  fix tokens pos e p
  assume "binaryLevel ops operand n tokens pos = Some (Inr (e, p))"
  then obtain left p1 where
    l: "operand n tokens pos = Some (Inr (left, p1))" and
    r: "binaryLoop ops operand n left tokens p1 = Some (Inr (e, p))"
    by (auto simp: binaryLevel_def bindP_Some_Inr)
  from assms l have "wellKinded_expr left" by (rule producesWellKindedD)
  with binaryLoop_wellKinded[OF assms r] show "wellKinded_expr e" .
qed

lemma parseLogicalOr_wellKinded:
  assumes "producesWellKinded primary"
  shows "producesWellKinded (parseLogicalOr primary n)"
  unfolding ladder_binaryLevel
  by (intro binaryLevel_wellKinded assms)

lemma parsePrimary_Suc_cases:
  assumes "parsePrimary (Suc n) tokens pos = Some (Inr (e, p))"
  obtains
    (Identifier) t where "peek tokens pos = Some t" "tok_type t = IDENTIFIER"
      "e = Identifier (tok_value t)" "p = Suc pos"
  | (Literal) t where "peek tokens pos = Some t" "tok_type t = NUMBER \<or> tok_type t = STRING"
      "e = Literal (tok_value t) (tok_type t)" "p = Suc pos"
  | (Parenthesized) t t' p1 where "peek tokens pos = Some t" "tok_type t \<noteq> IDENTIFIER"
      "tok_type t \<noteq> NUMBER" "tok_type t \<noteq> STRING"
      "fst (match tokens pos PUNCTUATION (Some ''(''))"
      "parseLogicalOr (parsePrimary n) n tokens (Suc pos) = Some (Inr (e, p1))"
      "expect tokens p1 PUNCTUATION (Some '')'') = Inr (t', p)"
proof (cases "peek tokens pos")
  case None
  with assms show ?thesis by simp
next
  case (Some t)
  show ?thesis
  proof (cases "tok_type t = IDENTIFIER")
    case True
    with assms Some show ?thesis by (intro Identifier[of t]) auto
  next
    case ni: False
    show ?thesis
    proof (cases "tok_type t = NUMBER \<or> tok_type t = STRING")
      case True
      with assms Some ni show ?thesis by (intro Literal[of t]) auto
    next
      case nl: False
      with assms Some ni have m: "fst (match tokens pos PUNCTUATION (Some ''(''))"
        by (auto split: if_splits)
      with assms Some ni nl obtain e1 p1 where
        inner: "parseLogicalOr (parsePrimary n) n tokens (Suc pos) = Some (Inr (e1, p1))" and
        rest: "(case expect tokens p1 PUNCTUATION (Some '')'') of
                 Inl err \<Rightarrow> Some (Inl err)
               | Inr (_, p') \<Rightarrow> Some (Inr (e1, p'))) = Some (Inr (e, p))"
        by (auto simp: bindP_Some_Inr)
      from rest obtain t' where "expect tokens p1 PUNCTUATION (Some '')'') = Inr (t', p)" "e1 = e"
        by (cases "expect tokens p1 PUNCTUATION (Some '')'')") auto
      with inner Some ni nl m show ?thesis by (intro Parenthesized[of t p1 t']) auto
    qed
  qed
qed

lemma parsePrimary_wellKinded: "producesWellKinded (parsePrimary n)"
proof (induction n)
  case 0
  then show ?case by (simp add: producesWellKinded_def)
next
  case (Suc n)
  have inner: "producesWellKinded (parseLogicalOr (parsePrimary n) n)"
    by (rule parseLogicalOr_wellKinded[OF Suc])
  show ?case
    unfolding producesWellKinded_def
  proof (intro allI impI)
    fix tokens pos e p
    assume a: "parsePrimary (Suc n) tokens pos = Some (Inr (e, p))"
    show "wellKinded_expr e"
    proof (cases rule: parsePrimary_Suc_cases[OF a])
      case (1 t)
      then show ?thesis by simp
    next
      case (2 t)
      then show ?thesis by auto
    next
      case (3 t t' p1)
      from inner 3(6) show ?thesis by (rule producesWellKindedD)
    qed
  qed
qed

lemma parseExpression_wellKinded:
  "parseExpression n tokens pos = Some (Inr (e, p)) \<Longrightarrow> wellKinded_expr e"
  using parseLogicalOr_wellKinded[OF parsePrimary_wellKinded, of n n]
  by (auto simp: parseExpression_def producesWellKinded_def)

lemma parseWhere_wellKinded:
  "parseWhere n tokens pos = Some (Inr (w, p)) \<Longrightarrow> wellKinded_where w"
  by (auto simp: parseWhere_def wellKinded_where_def bindP_Some_Inr
           split: if_splits dest: parseExpression_wellKinded)

lemma parseAssignments_loop_valueKind:
  "parseAssignments_loop tokens pos assignments = Inr (as, p) \<Longrightarrow>
   list_all (\<lambda>(column, v). valueKind v) assignments \<Longrightarrow>
   list_all (\<lambda>(column, v). valueKind v) as"
proof (induction tokens pos assignments arbitrary: as p rule: parseAssignments_loop.induct)
  case (1 tokens pos assignments)
  from "1.prems"(1) obtain column p1 where e1: "expect tokens pos IDENTIFIER None = Inr (column, p1)"
    by (subst (asm) parseAssignments_loop.simps) (auto split: sum.splits)
  from "1.prems"(1) e1 obtain t2 p2 where e2: "expect tokens p1 OPERATOR (Some ''='') = Inr (t2, p2)"
    by (subst (asm) parseAssignments_loop.simps) (auto split: sum.splits)
  from "1.prems"(1) e1 e2 obtain v p3 where v: "parseValue_parser tokens p2 = Inr (v, p3)"
    by (subst (asm) parseAssignments_loop.simps) (auto split: sum.splits)
  then have k: "valueKind v"
    by (auto simp: parseValue_parser_def valueKind_def split: option.splits if_splits)
  show ?case
  proof (cases "fst (match tokens p3 PUNCTUATION (Some '',''))")
    case True
    with "1.prems"(1) e1 e2 v
    have "parseAssignments_loop tokens (Suc p3) (assignments @ [(tok_value column, v)]) = Inr (as, p)"
      by (subst (asm) parseAssignments_loop.simps) simp
    moreover from k "1.prems"(2)
    have "list_all (\<lambda>(column, v). valueKind v) (assignments @ [(tok_value column, v)])" by simp
    ultimately show ?thesis
      by (rule "1.IH"[OF e1 refl e2 refl v refl True])
  next
    case False
    with "1.prems"(1) e1 e2 v have "as = assignments @ [(tok_value column, v)]"
      by (subst (asm) parseAssignments_loop.simps) auto
    with k "1.prems"(2) show ?thesis by simp
  qed
qed

lemma parseSelect_wellKinded:
  "parseSelect n tokens pos = Some (Inr (ast, p)) \<Longrightarrow> wellKinded ast"
  by (auto simp: parseSelect_def bindP_Some_Inr wellKinded_def
           split: sum.splits)
     (erule parseWhere_wellKinded)

lemma parseDelete_wellKinded:
  "parseDelete n tokens pos = Some (Inr (ast, p)) \<Longrightarrow> wellKinded ast"
  by (auto simp: parseDelete_def bindP_Some_Inr wellKinded_def
           split: sum.splits)
     (erule parseWhere_wellKinded)

lemma parseUpdate_wellKinded:
  "parseUpdate n tokens pos = Some (Inr (ast, p)) \<Longrightarrow> wellKinded ast"
  by (auto simp: parseUpdate_def parseAssignments_def bindP_Some_Inr wellKinded_def
           split: sum.splits dest!: parseAssignments_loop_valueKind)
     (erule parseWhere_wellKinded)

lemma parseInsert_statement:
  "parseInsert tokens pos = Inr (ast, p) \<Longrightarrow> \<exists>t cs vl. ast = InsertStmt t cs vl"
  by (auto simp: parseInsert_def split: sum.splits if_splits)

lemma parseShow_statement:
  "parseShow tokens pos = Inr (ast, p) \<Longrightarrow> ast = ShowTablesStmt"
  by (auto simp: parseShow_def split: sum.splits if_splits option.splits)

lemma parse_wellKinded:
  assumes "parse n tokens = Some (Inr (ast, p))"
  shows "wellKinded ast"
proof (cases "peek tokens 0")
  case None
  with assms show ?thesis by (simp add: parse_def)
next
  case (Some t)
  from assms Some consider
      "parseSelect n tokens 0 = Some (Inr (ast, p))"
    | "parseInsert tokens 0 = Inr (ast, p)"
    | "parseUpdate n tokens 0 = Some (Inr (ast, p))"
    | "parseDelete n tokens 0 = Some (Inr (ast, p))"
    | "parseShow tokens 0 = Inr (ast, p)"
    by (auto simp: parse_def Let_def split: if_splits)
  then show ?thesis
  proof cases
    case 1
    then show ?thesis by (rule parseSelect_wellKinded)
  next
    case 2
    from parseInsert_statement[OF 2] obtain t cs vl where a: "ast = InsertStmt t cs vl" by blast
    with 2 parseInsert_wellKinded[of tokens 0 t cs vl p] show ?thesis
      by (simp add: wellKinded_def)
  next
    case 3
    then show ?thesis by (rule parseUpdate_wellKinded)
  next
    case 4
    then show ?thesis by (rule parseDelete_wellKinded)
  next
    case 5
    from parseShow_statement[OF 5] show ?thesis by (simp add: wellKinded_def)
  qed
qed

lemma parseSQL_wellKinded: "parseSQL n tokens = Some (Inr ast) \<Longrightarrow> wellKinded ast"
  by (auto simp: parseSQL_def bindP_Some_Inr dest: parse_wellKinded)

section \<open>Failing statements\<close>

text \<open>
  Claim C3. A statement reaches the executor from the parser only: \<^verbatim>\<open>executeQuery\<close> calls
  \<^verbatim>\<open>executeAST\<close> on the result of \<^verbatim>\<open>parseSQL\<close>. For every statement that \<^verbatim>\<open>parseSQL\<close>
  returns, every host and every store, if the execution raises an error, whichever it is, then
  the store after the call is the store before it; and when the execution of a query fails,
  in the tokenizer, in the parser or in the executor, the store after the call is the store
  before it.
\<close>

theorem failing_statement_keeps_store:
  "(parseSQL n tokens = Some (Inr ast) \<and> executeAST h ast db = (Inl e, db') \<longrightarrow> db' = db) \<and>
   (executeQuery n h query db = Some (Inl e, db') \<longrightarrow> db' = db)"
proof (rule conjI)
  show "parseSQL n tokens = Some (Inr ast) \<and> executeAST h ast db = (Inl e, db') \<longrightarrow> db' = db"
  proof
    assume a: "parseSQL n tokens = Some (Inr ast) \<and> executeAST h ast db = (Inl e, db')"
    then have "wellKinded ast" by (auto dest: parseSQL_wellKinded)
    moreover from a have "fst (executeAST h ast db) = Inl e" by simp
    ultimately have "snd (executeAST h ast db) = db" by (rule executeAST_error_store)
    with a show "db' = db" by simp
  qed
next
  show "executeQuery n h query db = Some (Inl e, db') \<longrightarrow> db' = db"
  proof
    assume a: "executeQuery n h query db = Some (Inl e, db')"
    show "db' = db"
    proof (cases "lexicalAnalysis query")
      case (Inl err)
      with a show ?thesis by (simp add: executeQuery_def)
    next
      case (Inr toks)
      show ?thesis
      proof (cases "parseSQL n toks")
        case None
        with a Inr show ?thesis by (simp add: executeQuery_def)
      next
        case (Some r)
        show ?thesis
        proof (cases r)
          case (Inl err)
          with a Inr Some show ?thesis by (simp add: executeQuery_def)
        next
          case r: (Inr parsed)
          with a Inr Some have x: "executeAST h parsed db = (Inl e, db')"
            by (simp add: executeQuery_def)
          from Some r have "wellKinded parsed" by (auto dest: parseSQL_wellKinded)
          moreover from x have "fst (executeAST h parsed db) = Inl e" by simp
          ultimately have "snd (executeAST h parsed db) = db" by (rule executeAST_error_store)
          with x show ?thesis by simp
        qed
      qed
    qed
  qed
qed

theorem failing_statement_keeps_store_witness:
  "parseSQL 5 insertTokens_noColumns =
     Some (Inr (InsertStmt ''users'' []
                  [[\<lparr>tok_type = NUMBER, tok_value = ''3'', tok_position = 26\<rparr>]]))
   \<and> executeAST exampleHost
        (InsertStmt ''users'' [] [[\<lparr>tok_type = NUMBER, tok_value = ''3'', tok_position = 26\<rparr>]])
        mockDatabase = (Inl ColumnCountMismatch, mockDatabase)
   \<and> executeQuery 20 exampleHost ''UPDATE users SET id = 7 WHERE id + 1'' mockDatabase =
       Some (Inl (UnsupportedOperator ''+''), mockDatabase)"
proof -
  let ?ast = "InsertStmt ''users'' [] [[\<lparr>tok_type = NUMBER, tok_value = ''3'', tok_position = 26\<rparr>]]"
  let ?run = "executeQuery 20 exampleHost ''UPDATE users SET id = 7 WHERE id + 1'' mockDatabase"
  have p: "parseSQL 5 insertTokens_noColumns = Some (Inr ?ast)"
    by code_simp
  have f: "fst (executeAST exampleHost ?ast mockDatabase) = Inl ColumnCountMismatch"
    by code_simp
  then obtain db1 where x: "executeAST exampleHost ?ast mockDatabase = (Inl ColumnCountMismatch, db1)"
    by (cases "executeAST exampleHost ?ast mockDatabase") simp
  from failing_statement_keeps_store[of 5 insertTokens_noColumns ?ast exampleHost mockDatabase
         ColumnCountMismatch db1] p x
  have 1: "db1 = mockDatabase" by blast
  have g: "map_option fst ?run = Some (Inl (UnsupportedOperator ''+''))"
    by code_simp
  then obtain db2 where y: "?run = Some (Inl (UnsupportedOperator ''+''), db2)"
    by (cases ?run) auto
  from failing_statement_keeps_store[where n = 20 and h = exampleHost and db = mockDatabase
         and query = "''UPDATE users SET id = 7 WHERE id + 1''"
         and e = "UnsupportedOperator ''+''" and db' = db2] y
  have 2: "db2 = mockDatabase" by blast
  from p x 1 y 2 show ?thesis by simp
qed

section \<open>The evaluator on parsed expressions\<close>

text \<open>
  Claim C4, as amended. The claim says that no expression the parser builds reaches the
  evaluator's error branches. The grammar has the operators \<open>+ - * /\<close> and nested operands, and
  the evaluator has neither arithmetic nor evaluation of a nested operand of a comparison. For
  every expression that \<^verbatim>\<open>parseExpression\<close> returns and every row: if the expression is a
  leaf, or its operator is one of \<open>= <> > < >= <= AND OR\<close> and both of its operands are leaves,
  the evaluation returns a value; if both operands are leaves and the operator is another one,
  the evaluation fails with the error for an unsupported operator.
\<close>

theorem evaluateExpression_on_parsed:
  assumes "parseExpression n tokens pos = Some (Inr (e, p))"
  shows "(exprFailure e = None \<longrightarrow> (\<exists>v. evaluateExpression h row e = Inr v))
       \<and> (\<forall>operator l r. e = BinaryExpression operator l r \<and> \<not> isBinary l \<and> \<not> isBinary r
              \<and> operator \<notin> set supportedOperators \<longrightarrow>
              evaluateExpression h row e = Inl (UnsupportedOperator operator))"
proof -
  from assms have wk: "wellKinded_expr e" by (rule parseExpression_wellKinded)
  note f = evaluateExpression_exprFailure[OF wk, of h row]
  show ?thesis
  proof (intro conjI allI impI)
    assume "exprFailure e = None"
    with f show "\<exists>v. evaluateExpression h row e = Inr v" by simp
  next
    fix operator l r
    assume "e = BinaryExpression operator l r \<and> \<not> isBinary l \<and> \<not> isBinary r
              \<and> operator \<notin> set supportedOperators"
    then have "exprFailure e = Some (UnsupportedOperator operator)" by simp
    with f show "evaluateExpression h row e = Inl (UnsupportedOperator operator)" by simp
  qed
qed

theorem evaluateExpression_on_parsed_witness:
  "parseExpression 3
     [\<lparr>tok_type = IDENTIFIER, tok_value = ''id'', tok_position = 0\<rparr>,
      \<lparr>tok_type = OPERATOR, tok_value = ''='', tok_position = 3\<rparr>,
      \<lparr>tok_type = NUMBER, tok_value = ''1'', tok_position = 5\<rparr>] 0 =
     Some (Inr (BinaryExpression ''='' (Identifier ''id'') (Literal ''1'' NUMBER), 3))
   \<and> exprFailure (BinaryExpression ''='' (Identifier ''id'') (Literal ''1'' NUMBER)) = None
   \<and> (\<exists>v. evaluateExpression exampleHost [(''id'', VNum 1)]
              (BinaryExpression ''='' (Identifier ''id'') (Literal ''1'' NUMBER)) = Inr v)"
proof -
  let ?e = "BinaryExpression ''='' (Identifier ''id'') (Literal ''1'' NUMBER)"
  have p: "parseExpression 3
     [\<lparr>tok_type = IDENTIFIER, tok_value = ''id'', tok_position = 0\<rparr>,
      \<lparr>tok_type = OPERATOR, tok_value = ''='', tok_position = 3\<rparr>,
      \<lparr>tok_type = NUMBER, tok_value = ''1'', tok_position = 5\<rparr>] 0 = Some (Inr (?e, 3))"
    by code_simp
  have f: "exprFailure ?e = None" by code_simp
  from evaluateExpression_on_parsed[OF p, of exampleHost "[(''id'', VNum 1)]"] f p
  show ?thesis by blast
qed

text \<open>
  The claim C4 as stated fails on the tokens of \<^verbatim>\<open>id + 1\<close>: the parser builds the expression,
  and its evaluation on a row is the error for an unsupported operator.
\<close>

theorem evaluateExpression_on_parsed_counterexample:
  "parseExpression 3
     [\<lparr>tok_type = IDENTIFIER, tok_value = ''id'', tok_position = 0\<rparr>,
      \<lparr>tok_type = OPERATOR, tok_value = ''+'', tok_position = 3\<rparr>,
      \<lparr>tok_type = NUMBER, tok_value = ''1'', tok_position = 5\<rparr>] 0 =
     Some (Inr (BinaryExpression ''+'' (Identifier ''id'') (Literal ''1'' NUMBER), 3))
   \<and> evaluateExpression exampleHost [(''id'', VNum 1)]
        (BinaryExpression ''+'' (Identifier ''id'') (Literal ''1'' NUMBER)) =
       Inl (UnsupportedOperator ''+'')"
  by code_simp

section \<open>What the parser consumes\<close>

text \<open>
  Every method of the parser goes forward, stays inside the token array and consumes no
  semicolon.
\<close>

lemma consumed_refl: "consumed tokens pos pos"
  by (auto simp: consumed_def)

lemma consumed_trans:
  "consumed tokens a b \<Longrightarrow> consumed tokens b c \<Longrightarrow> consumed tokens a c"
  unfolding consumed_def by (metis le_trans not_le)

lemma consumedD: "consumed tokens pos p \<Longrightarrow> pos \<le> p"
  by (simp add: consumed_def)

lemma match_fst_iff:
  "fst (match tokens pos ty (Some v)) \<longleftrightarrow> (\<exists>t. peek tokens pos = Some t \<and> sign ty v t)"
  by (auto simp: match_def sign_def split: option.splits)

lemma match_eq:
  "match tokens pos ty val = (if fst (match tokens pos ty val) then (True, Suc pos) else (False, pos))"
  by (auto simp: match_def split: option.splits)

lemma isSemicolon_sign:
  "isSemicolon t \<Longrightarrow> sign ty v t \<Longrightarrow> ty = PUNCTUATION \<and> toUpperCase v = '';''"
  by (auto simp: isSemicolon_def sign_def toUpperCase_def)

lemma consumed_one:
  assumes "peek tokens pos = Some t" and "\<not> isSemicolon t"
  shows "consumed tokens pos (Suc pos)"
proof -
  from assms(1) have "pos < length tokens" "tokens ! pos = t"
    by (auto simp: peek_def split: if_splits)
  with assms(2) show ?thesis
    by (auto simp: consumed_def le_less_Suc_eq)
qed

lemma match_consumed:
  assumes "fst (match tokens pos ty (Some v))" and "noSemicolon ty (Some v)"
  shows "consumed tokens pos (Suc pos)"
proof -
  from assms(1) obtain t where t: "peek tokens pos = Some t" "sign ty v t"
    by (auto simp: match_fst_iff)
  with assms(2) have "\<not> isSemicolon t"
    by (auto simp: noSemicolon_def dest: isSemicolon_sign)
  with t show ?thesis by (auto intro: consumed_one)
qed

lemma expect_consumed:
  assumes "expect tokens pos ty val = Inr (t, p)" and "noSemicolon ty val"
  shows "consumed tokens pos p \<and> p = Suc pos"
proof -
  from assms(1) have t: "peek tokens pos = Some t" "p = Suc pos" "tok_type t = ty"
    "case val of None \<Rightarrow> True | Some v \<Rightarrow> toUpperCase (tok_value t) = toUpperCase v"
    by (auto simp: expect_def split: option.splits if_splits)
  with assms(2) have "\<not> isSemicolon t"
    by (auto simp: noSemicolon_def isSemicolon_def toUpperCase_def)
  with t show ?thesis by (auto intro: consumed_one)
qed

lemma noSemicolon_simps [simp]:
  "noSemicolon KEYWORD val" "noSemicolon IDENTIFIER val" "noSemicolon OPERATOR val"
  "noSemicolon PUNCTUATION (Some '','')" "noSemicolon PUNCTUATION (Some ''('')"
  "noSemicolon PUNCTUATION (Some '')'')"
  by (simp_all add: noSemicolon_def toUpperCase_def)

subsection \<open>Expressions\<close>

lemma advancesD:
  "advances q \<Longrightarrow> q tokens pos = Some (Inr (e, p)) \<Longrightarrow> pos < p \<and> consumed tokens pos p"
  unfolding advances_def by blast

lemma firstMatch_Some:
  "firstMatch tokens pos ops = Some v \<Longrightarrow>
   \<exists>ty. (ty, v) \<in> set ops \<and> fst (match tokens pos ty (Some v))"
  by (induction ops) (auto split: if_splits)

lemma firstMatch_None:
  "firstMatch tokens pos ops = None \<longleftrightarrow>
   (\<forall>(ty, v)\<in>set ops. \<not> fst (match tokens pos ty (Some v)))"
  by (induction ops) (auto split: if_splits)

lemma binaryLoop_consumed:
  assumes "\<And>n. advances (operand n)"
      and "\<forall>(ty, v)\<in>set ops. noSemicolon ty (Some v)"
  shows "binaryLoop ops operand n left tokens pos = Some (Inr (e, p)) \<Longrightarrow> consumed tokens pos p"
proof (induction n arbitrary: left pos)
  case 0
  then show ?case by simp
next
  case (Suc n)
  show ?case
  proof (cases "firstMatch tokens pos ops")
    case None
    with Suc.prems show ?thesis by (simp add: consumed_refl)
  next
    case (Some v)
    with Suc.prems obtain right p1 where
      r: "operand n tokens (Suc pos) = Some (Inr (right, p1))" and
      l: "binaryLoop ops operand n (BinaryExpression v left right) tokens p1 = Some (Inr (e, p))"
      by (auto simp: bindP_Some_Inr)
    from firstMatch_Some[OF Some] assms(2) have "consumed tokens pos (Suc pos)"
      by (auto intro: match_consumed)
    moreover from advancesD[OF assms(1) r] have "consumed tokens (Suc pos) p1" by simp
    moreover from l have "consumed tokens p1 p" by (rule Suc.IH)
    ultimately show ?thesis by (blast intro: consumed_trans)
  qed
qed

lemma binaryLevel_advances:
  assumes "\<And>n. advances (operand n)"
      and "\<forall>(ty, v)\<in>set ops. noSemicolon ty (Some v)"
  shows "advances (binaryLevel ops operand n)"
  unfolding advances_def
proof (intro allI impI)
  fix tokens pos e p
  assume "binaryLevel ops operand n tokens pos = Some (Inr (e, p))"
  then obtain left p1 where
    l: "operand n tokens pos = Some (Inr (left, p1))" and
    r: "binaryLoop ops operand n left tokens p1 = Some (Inr (e, p))"
    by (auto simp: binaryLevel_def bindP_Some_Inr)
  from advancesD[OF assms(1) l] have a: "pos < p1" "consumed tokens pos p1" by simp_all
  from binaryLoop_consumed[OF assms r] have b: "consumed tokens p1 p" .
  from a b consumedD[OF b] show "pos < p \<and> consumed tokens pos p"
    by (auto intro: consumed_trans)
qed

lemma parseLogicalOr_advances:
  assumes "advances primary"
  shows "advances (parseLogicalOr primary n)"
  unfolding ladder_binaryLevel
  by (intro binaryLevel_advances assms)
     (simp_all add: multiplicativeOps_def additiveOps_def relationalOps_def equalityOps_def
        logicalAndOps_def logicalOrOps_def)

lemma parsePrimary_advances: "advances (parsePrimary n)"
proof (induction n)
  case 0
  then show ?case by (simp add: advances_def)
next
  case (Suc n)
  have inner: "advances (parseLogicalOr (parsePrimary n) n)"
    by (rule parseLogicalOr_advances[OF Suc])
  show ?case
    unfolding advances_def
  proof (intro allI impI)
    fix tokens pos e p
    assume a: "parsePrimary (Suc n) tokens pos = Some (Inr (e, p))"
    show "pos < p \<and> consumed tokens pos p"
    proof (cases rule: parsePrimary_Suc_cases[OF a])
      case (1 t)
      then have "\<not> isSemicolon t" by (simp add: isSemicolon_def)
      with 1 show ?thesis by (auto intro: consumed_one)
    next
      case (2 t)
      then have "\<not> isSemicolon t" by (auto simp: isSemicolon_def)
      with 2 show ?thesis by (auto intro: consumed_one)
    next
      case (3 t t' p1)
      from 3(5) have c1: "consumed tokens pos (Suc pos)" by (auto intro: match_consumed)
      from advancesD[OF inner 3(6)] have c2: "Suc pos < p1" "consumed tokens (Suc pos) p1"
        by simp_all
      from expect_consumed[OF 3(7)] have c3: "consumed tokens p1 p" "p = Suc p1" by auto
      from c1 c2 c3 show ?thesis by (auto intro: consumed_trans)
    qed
  qed
qed

lemma parseExpression_consumed:
  "parseExpression n tokens pos = Some (Inr (e, p)) \<Longrightarrow> pos < p \<and> consumed tokens pos p"
  unfolding parseExpression_def
  by (rule advancesD[OF parseLogicalOr_advances[OF parsePrimary_advances]])

subsection \<open>Statements\<close>

lemma parseWhere_consumed:
  "parseWhere n tokens pos = Some (Inr (w, p)) \<Longrightarrow> consumed tokens pos p"
proof (cases "fst (match tokens pos KEYWORD (Some ''WHERE''))")
  case True
  assume "parseWhere n tokens pos = Some (Inr (w, p))"
  with True obtain e where "parseExpression n tokens (Suc pos) = Some (Inr (e, p))"
    by (auto simp: parseWhere_def bindP_Some_Inr)
  from parseExpression_consumed[OF this] match_consumed[OF True] show ?thesis
    by (auto intro: consumed_trans)
next
  case False
  assume "parseWhere n tokens pos = Some (Inr (w, p))"
  with False show ?thesis by (simp add: parseWhere_def consumed_refl)
qed

lemma parseColumnList_loop_consumed:
  "parseColumnList_loop tokens pos columns = Inr (cs, p) \<Longrightarrow> consumed tokens pos p"
proof (induction tokens pos columns arbitrary: cs p rule: parseColumnList_loop.induct)
  case (1 tokens pos columns)
  let ?first = "if fst (match tokens pos OPERATOR (Some ''*''))
            then Inr (columns @ [''*''], Suc pos)
            else (case expect tokens pos IDENTIFIER None of
                    Inl e \<Rightarrow> Inl e
                  | Inr (column, p) \<Rightarrow> Inr (columns @ [tok_value column], p))"
  from "1.prems" obtain columns' p1 where f: "?first = Inr (columns', p1)"
    by (subst (asm) parseColumnList_loop.simps) (auto split: sum.splits)
  have c1: "consumed tokens pos p1"
  proof (cases "fst (match tokens pos OPERATOR (Some ''*''))")
    case True
    with f match_consumed[OF True] show ?thesis by simp
  next
    case False
    with f obtain t where "expect tokens pos IDENTIFIER None = Inr (t, p1)"
      by (auto split: sum.splits)
    from expect_consumed[OF this] show ?thesis by auto
  qed
  show ?case
  proof (cases "fst (match tokens p1 PUNCTUATION (Some '',''))")
    case True
    with "1.prems" f have "parseColumnList_loop tokens (Suc p1) columns' = Inr (cs, p)"
      by (subst (asm) parseColumnList_loop.simps) simp
    from "1.IH"[OF f refl True this] match_consumed[OF True] c1 show ?thesis
      by (auto intro: consumed_trans)
  next
    case False
    with "1.prems" f have "p = p1"
      by (subst (asm) parseColumnList_loop.simps) auto
    with c1 show ?thesis by simp
  qed
qed

lemma parseIdentifierList_loop_consumed:
  "parseIdentifierList_loop tokens pos ids = Inr (r, p) \<Longrightarrow> consumed tokens pos p"
proof (induction tokens pos ids arbitrary: r p rule: parseIdentifierList_loop.induct)
  case (1 tokens pos ids)
  from "1.prems" obtain t p1 where e: "expect tokens pos IDENTIFIER None = Inr (t, p1)"
    by (subst (asm) parseIdentifierList_loop.simps) (auto split: sum.splits)
  from expect_consumed[OF e] have c1: "consumed tokens pos p1" by auto
  show ?case
  proof (cases "fst (match tokens p1 PUNCTUATION (Some '',''))")
    case True
    with "1.prems" e
    have "parseIdentifierList_loop tokens (Suc p1) (ids @ [tok_value t]) = Inr (r, p)"
      by (subst (asm) parseIdentifierList_loop.simps) simp
    from "1.IH"[OF e refl True this] match_consumed[OF True] c1 show ?thesis
      by (auto intro: consumed_trans)
  next
    case False
    with "1.prems" e have "p = p1"
      by (subst (asm) parseIdentifierList_loop.simps) auto
    with c1 show ?thesis by simp
  qed
qed

lemma parseValue_parser_consumed:
  assumes "parseValue_parser tokens pos = Inr (v, p)"
  shows "consumed tokens pos p \<and> p = Suc pos"
proof -
  from assms have t: "peek tokens pos = Some v" "p = Suc pos"
    "tok_type v = STRING \<or> tok_type v = NUMBER \<or> tok_type v = IDENTIFIER"
    by (auto simp: parseValue_parser_def split: option.splits if_splits)
  then have "\<not> isSemicolon v" by (auto simp: isSemicolon_def)
  with t show ?thesis by (auto intro: consumed_one)
qed

lemma parseValues_loop_consumed:
  "parseValues_loop tokens pos vals = Inr (vs, p) \<Longrightarrow> consumed tokens pos p"
proof (induction tokens pos vals arbitrary: vs p rule: parseValues_loop.induct)
  case (1 tokens pos vals)
  from "1.prems" obtain v p1 where v: "parseValue_parser tokens pos = Inr (v, p1)"
    by (subst (asm) parseValues_loop.simps) (auto split: sum.splits)
  from parseValue_parser_consumed[OF v] have c1: "consumed tokens pos p1" by blast
  show ?case
  proof (cases "fst (match tokens p1 PUNCTUATION (Some '',''))")
    case True
    with "1.prems" v have "parseValues_loop tokens (Suc p1) (vals @ [v]) = Inr (vs, p)"
      by (subst (asm) parseValues_loop.simps) simp
    from "1.IH"[OF v refl True this] match_consumed[OF True] c1 show ?thesis
      by (auto intro: consumed_trans)
  next
    case False
    with "1.prems" v have "p = p1"
      by (subst (asm) parseValues_loop.simps) auto
    with c1 show ?thesis by simp
  qed
qed

lemma parseValuesList_loop_consumed:
  "parseValuesList_loop tokens pos valuesList = Inr (vl, p) \<Longrightarrow> consumed tokens pos p"
proof (induction tokens pos valuesList arbitrary: vl p rule: parseValuesList_loop.induct)
  case (1 tokens pos valuesList)
  from "1.prems" obtain t1 p1 where e1: "expect tokens pos PUNCTUATION (Some ''('') = Inr (t1, p1)"
    by (subst (asm) parseValuesList_loop.simps) (auto split: sum.splits)
  from "1.prems" e1 obtain vals p2 where vs: "parseValues_loop tokens p1 [] = Inr (vals, p2)"
    by (subst (asm) parseValuesList_loop.simps) (auto split: sum.splits)
  from "1.prems" e1 vs obtain t3 p3 where e3: "expect tokens p2 PUNCTUATION (Some '')'') = Inr (t3, p3)"
    by (subst (asm) parseValuesList_loop.simps) (auto split: sum.splits)
  from expect_consumed[OF e1] parseValues_loop_consumed[OF vs] expect_consumed[OF e3]
  have c: "consumed tokens pos p3" by (auto intro: consumed_trans)
  show ?case
  proof (cases "fst (match tokens p3 PUNCTUATION (Some '',''))")
    case True
    with "1.prems" e1 vs e3
    have "parseValuesList_loop tokens (Suc p3) (valuesList @ [vals]) = Inr (vl, p)"
      by (subst (asm) parseValuesList_loop.simps) simp
    from "1.IH"[OF e1 refl vs refl e3 refl True this] match_consumed[OF True] c show ?thesis
      by (auto intro: consumed_trans)
  next
    case False
    with "1.prems" e1 vs e3 have "p = p3"
      by (subst (asm) parseValuesList_loop.simps) auto
    with c show ?thesis by simp
  qed
qed

lemma parseAssignments_loop_consumed:
  "parseAssignments_loop tokens pos assignments = Inr (as, p) \<Longrightarrow> consumed tokens pos p"
proof (induction tokens pos assignments arbitrary: as p rule: parseAssignments_loop.induct)
  case (1 tokens pos assignments)
  from "1.prems" obtain column p1 where e1: "expect tokens pos IDENTIFIER None = Inr (column, p1)"
    by (subst (asm) parseAssignments_loop.simps) (auto split: sum.splits)
  from "1.prems" e1 obtain t2 p2 where e2: "expect tokens p1 OPERATOR (Some ''='') = Inr (t2, p2)"
    by (subst (asm) parseAssignments_loop.simps) (auto split: sum.splits)
  from "1.prems" e1 e2 obtain v p3 where v: "parseValue_parser tokens p2 = Inr (v, p3)"
    by (subst (asm) parseAssignments_loop.simps) (auto split: sum.splits)
  from expect_consumed[OF e1] expect_consumed[OF e2] parseValue_parser_consumed[OF v]
  have c: "consumed tokens pos p3" by (auto intro: consumed_trans)
  show ?case
  proof (cases "fst (match tokens p3 PUNCTUATION (Some '',''))")
    case True
    with "1.prems" e1 e2 v
    have "parseAssignments_loop tokens (Suc p3) (assignments @ [(tok_value column, v)]) = Inr (as, p)"
      by (subst (asm) parseAssignments_loop.simps) simp
    from "1.IH"[OF e1 refl e2 refl v refl True this] match_consumed[OF True] c show ?thesis
      by (auto intro: consumed_trans)
  next
    case False
    with "1.prems" e1 e2 v have "p = p3"
      by (subst (asm) parseAssignments_loop.simps) auto
    with c show ?thesis by simp
  qed
qed

text \<open>
  The steps of a statement parser that succeeded, with the positions between them.
\<close>

lemma parseSelect_steps:
  assumes "parseSelect n tokens pos = Some (Inr (ast, p))"
  obtains t1 p1 columns p2 t3 p3 table p4 w where
    "expect tokens pos KEYWORD (Some ''SELECT'') = Inr (t1, p1)"
    "parseColumnList_loop tokens p1 [] = Inr (columns, p2)"
    "expect tokens p2 KEYWORD (Some ''FROM'') = Inr (t3, p3)"
    "expect tokens p3 IDENTIFIER None = Inr (table, p4)"
    "parseWhere n tokens p4 = Some (Inr (w, p))"
    "ast = SelectStmt columns (tok_value table) w"
  using assms
  by (auto simp: parseSelect_def parseColumnList_def bindP_Some_Inr split: sum.splits)

lemma parseUpdate_steps:
  assumes "parseUpdate n tokens pos = Some (Inr (ast, p))"
  obtains t1 p1 table p2 t3 p3 assignments p4 w where
    "expect tokens pos KEYWORD (Some ''UPDATE'') = Inr (t1, p1)"
    "expect tokens p1 IDENTIFIER None = Inr (table, p2)"
    "expect tokens p2 KEYWORD (Some ''SET'') = Inr (t3, p3)"
    "parseAssignments_loop tokens p3 [] = Inr (assignments, p4)"
    "parseWhere n tokens p4 = Some (Inr (w, p))"
    "ast = UpdateStmt (tok_value table) assignments w"
  using assms
  by (auto simp: parseUpdate_def parseAssignments_def bindP_Some_Inr split: sum.splits)

lemma parseDelete_steps:
  assumes "parseDelete n tokens pos = Some (Inr (ast, p))"
  obtains t1 p1 t2 p2 table p3 w where
    "expect tokens pos KEYWORD (Some ''DELETE'') = Inr (t1, p1)"
    "expect tokens p1 KEYWORD (Some ''FROM'') = Inr (t2, p2)"
    "expect tokens p2 IDENTIFIER None = Inr (table, p3)"
    "parseWhere n tokens p3 = Some (Inr (w, p))"
    "ast = DeleteStmt (tok_value table) w"
  using assms
  by (auto simp: parseDelete_def bindP_Some_Inr split: sum.splits)

lemma parseInsert_steps:
  assumes "parseInsert tokens pos = Inr (ast, p)"
  obtains t1 p1 t2 p2 table p3 columns p6 t7 p7 valuesList where
    "expect tokens pos KEYWORD (Some ''INSERT'') = Inr (t1, p1)"
    "expect tokens p1 KEYWORD (Some ''INTO'') = Inr (t2, p2)"
    "expect tokens p2 IDENTIFIER None = Inr (table, p3)"
    "parseInsert_columns tokens p3 = Inr (columns, p6)"
    "expect tokens p6 KEYWORD (Some ''VALUES'') = Inr (t7, p7)"
    "parseValuesList_loop tokens p7 [] = Inr (valuesList, p)"
    "ast = InsertStmt (tok_value table) columns valuesList"
  using assms
  unfolding parseInsert_def parseInsert_columns_def[symmetric] parseValuesList_def
  by (auto split: sum.splits)

lemma parseInsert_columns_consumed:
  assumes "parseInsert_columns tokens pos = Inr (columns, p)"
  shows "consumed tokens pos p"
proof (cases "fst (match tokens pos PUNCTUATION (Some ''(''))")
  case True
  with assms obtain cs p4 t5 where
    l: "parseIdentifierList_loop tokens (Suc pos) [] = Inr (cs, p4)" and
    e: "expect tokens p4 PUNCTUATION (Some '')'') = Inr (t5, p)"
    by (auto simp: parseInsert_columns_def parseIdentifierList_def split: sum.splits)
  from match_consumed[OF True] parseIdentifierList_loop_consumed[OF l] expect_consumed[OF e]
  show ?thesis by (auto intro: consumed_trans)
next
  case False
  with assms show ?thesis by (simp add: parseInsert_columns_def consumed_refl)
qed

lemma parseSelect_consumed:
  assumes "parseSelect n tokens pos = Some (Inr (ast, p))"
  shows "pos < p \<and> consumed tokens pos p"
proof (cases rule: parseSelect_steps[OF assms])
  case (1 t1 p1 columns p2 t3 p3 table p4 w)
  from expect_consumed[OF 1(1)] have a: "consumed tokens pos p1" "p1 = Suc pos" by auto
  from parseColumnList_loop_consumed[OF 1(2)] have c0: "consumed tokens p1 p2" by auto
  from expect_consumed[OF 1(3)] have c1: "consumed tokens p2 p3" by auto
  from expect_consumed[OF 1(4)] have c2: "consumed tokens p3 p4" by auto
  from parseWhere_consumed[OF 1(5)] have c3: "consumed tokens p4 p" by auto
  from c0 c1 c2 c3 have b: "consumed tokens p1 p" by (blast intro: consumed_trans)
  from a b consumedD[OF b] show ?thesis by (auto intro: consumed_trans)
qed

lemma parseUpdate_consumed:
  assumes "parseUpdate n tokens pos = Some (Inr (ast, p))"
  shows "pos < p \<and> consumed tokens pos p"
proof (cases rule: parseUpdate_steps[OF assms])
  case (1 t1 p1 table p2 t3 p3 assignments p4 w)
  from expect_consumed[OF 1(1)] have a: "consumed tokens pos p1" "p1 = Suc pos" by auto
  from expect_consumed[OF 1(2)] have c0: "consumed tokens p1 p2" by auto
  from expect_consumed[OF 1(3)] have c1: "consumed tokens p2 p3" by auto
  from parseAssignments_loop_consumed[OF 1(4)] have c2: "consumed tokens p3 p4" by auto
  from parseWhere_consumed[OF 1(5)] have c3: "consumed tokens p4 p" by auto
  from c0 c1 c2 c3 have b: "consumed tokens p1 p" by (blast intro: consumed_trans)
  from a b consumedD[OF b] show ?thesis by (auto intro: consumed_trans)
qed

lemma parseDelete_consumed:
  assumes "parseDelete n tokens pos = Some (Inr (ast, p))"
  shows "pos < p \<and> consumed tokens pos p"
proof (cases rule: parseDelete_steps[OF assms])
  case (1 t1 p1 t2 p2 table p3 w)
  from expect_consumed[OF 1(1)] have a: "consumed tokens pos p1" "p1 = Suc pos" by auto
  from expect_consumed[OF 1(2)] have c0: "consumed tokens p1 p2" by auto
  from expect_consumed[OF 1(3)] have c1: "consumed tokens p2 p3" by auto
  from parseWhere_consumed[OF 1(4)] have c2: "consumed tokens p3 p" by auto
  from c0 c1 c2 have b: "consumed tokens p1 p" by (blast intro: consumed_trans)
  from a b consumedD[OF b] show ?thesis by (auto intro: consumed_trans)
qed

lemma parseInsert_consumed:
  assumes "parseInsert tokens pos = Inr (ast, p)"
  shows "pos < p \<and> consumed tokens pos p"
proof (cases rule: parseInsert_steps[OF assms])
  case (1 t1 p1 t2 p2 table p3 columns p6 t7 p7 valuesList)
  from expect_consumed[OF 1(1)] have a: "consumed tokens pos p1" "p1 = Suc pos" by auto
  from expect_consumed[OF 1(2)] have c0: "consumed tokens p1 p2" by auto
  from expect_consumed[OF 1(3)] have c1: "consumed tokens p2 p3" by auto
  from parseInsert_columns_consumed[OF 1(4)] have c2: "consumed tokens p3 p6" by auto
  from expect_consumed[OF 1(5)] have c3: "consumed tokens p6 p7" by auto
  from parseValuesList_loop_consumed[OF 1(6)] have c4: "consumed tokens p7 p" by auto
  from c0 c1 c2 c3 c4 have b: "consumed tokens p1 p" by (blast intro: consumed_trans)
  from a b consumedD[OF b] show ?thesis by (auto intro: consumed_trans)
qed

section \<open>What the parser reads\<close>

text \<open>
  What a method of the parser returns depends on the tokens it consumed and on the next
  token only.
\<close>

lemma window_peek:
  assumes "window S tokens tokens' p" and "pos < p"
  shows "peek tokens' pos = peek tokens pos"
proof -
  from assms(1) have p: "p \<le> length tokens" and t: "take p tokens' = take p tokens"
    by (simp_all add: window_def)
  from t have "length (take p tokens') = length (take p tokens)" by simp
  with p have p': "p \<le> length tokens'" by simp
  from assms(2) have "tokens' ! pos = take p tokens' ! pos" "tokens ! pos = take p tokens ! pos"
    by simp_all
  with t have "tokens' ! pos = tokens ! pos" by simp
  with assms(2) p p' show ?thesis by (simp add: peek_def)
qed

lemma match_peek:
  "peek tokens' pos = peek tokens pos \<Longrightarrow> match tokens' pos ty val = match tokens pos ty val"
  by (simp add: match_def)

lemma expect_peek:
  "peek tokens' pos = peek tokens pos \<Longrightarrow> expect tokens' pos ty val = expect tokens pos ty val"
  by (simp add: expect_def)

lemma parseValue_parser_peek:
  "peek tokens' pos = peek tokens pos \<Longrightarrow> parseValue_parser tokens' pos = parseValue_parser tokens pos"
  by (simp add: parseValue_parser_def)

lemma window_mono: "window S tokens tokens' p \<Longrightarrow> set S' \<subseteq> set S \<Longrightarrow> window S' tokens tokens' p"
  by (auto simp: window_def continuesAt_def split: option.splits)

lemma window_before:
  assumes "window S tokens tokens' p" and "q < p"
  shows "window S' tokens tokens' q"
proof -
  from assms(1) have p: "p \<le> length tokens" and t: "take p tokens' = take p tokens"
    by (simp_all add: window_def)
  from assms(2) have "take q (take p tokens') = take q tokens'" "take q (take p tokens) = take q tokens"
    by (simp_all add: min_def)
  with t have "take q tokens' = take q tokens" by simp
  with p assms(2) window_peek[OF assms] show ?thesis by (simp add: window_def)
qed

lemma match_continuesAt:
  "(ty, v) \<in> set S \<Longrightarrow> fst (match tokens pos ty (Some v)) \<Longrightarrow> continuesAt S tokens pos"
proof -
  assume m: "(ty, v) \<in> set S" and f: "fst (match tokens pos ty (Some v))"
  from f obtain t where t: "peek tokens pos = Some t" "sign ty v t"
    unfolding match_fst_iff by blast
  from m t(2) have "\<exists>(ty, v)\<in>set S. sign ty v t" by blast
  with t(1) show ?thesis by (simp add: continuesAt_def)
qed

lemma continuesAt_match:
  assumes "continuesAt S tokens pos"
  shows "\<exists>(ty, v)\<in>set S. fst (match tokens pos ty (Some v))"
proof -
  from assms obtain t where t: "peek tokens pos = Some t" "\<exists>(ty, v)\<in>set S. sign ty v t"
    by (auto simp: continuesAt_def split: option.splits)
  then obtain ty v where "(ty, v) \<in> set S" "sign ty v t" by blast
  with t(1) have "(ty, v) \<in> set S" "fst (match tokens pos ty (Some v))"
    by (auto simp: match_fst_iff)
  then show ?thesis by blast
qed

lemma continuesAt_append:
  "continuesAt (S @ S') tokens p \<longleftrightarrow> continuesAt S tokens p \<or> continuesAt S' tokens p"
  by (auto simp: continuesAt_def split: option.splits)

lemma continuesAt_mono:
  "continuesAt S' tokens p \<Longrightarrow> set S' \<subseteq> set S \<Longrightarrow> continuesAt S tokens p"
  by (auto simp: continuesAt_def split: option.splits)

lemma match_window:
  assumes "window S tokens tokens' p" and "(ty, v) \<in> set S"
      and "pos < p \<or> (pos = p \<and> \<not> fst (match tokens pos ty (Some v)))"
  shows "match tokens' pos ty (Some v) = match tokens pos ty (Some v)"
proof (cases "pos < p")
  case True
  from window_peek[OF assms(1) True] show ?thesis by (rule match_peek)
next
  case False
  with assms(3) have eq: "pos = p" and nm: "\<not> fst (match tokens pos ty (Some v))" by auto
  from assms(1) eq have "peek tokens' pos = peek tokens pos \<or> \<not> continuesAt S tokens' pos"
    by (simp add: window_def)
  then show ?thesis
  proof
    assume "peek tokens' pos = peek tokens pos"
    then show ?thesis by (rule match_peek)
  next
    assume "\<not> continuesAt S tokens' pos"
    with match_continuesAt[OF assms(2), of tokens' pos]
    have "\<not> fst (match tokens' pos ty (Some v))" by blast
    with nm show ?thesis
      by (subst match_eq, subst (2) match_eq) simp
  qed
qed

lemma expect_window:
  assumes "window S tokens tokens' p" and "expect tokens pos ty val = Inr (t, p1)" and "p1 \<le> p"
  shows "expect tokens' pos ty val = Inr (t, p1)"
proof -
  from assms(2) have "p1 = Suc pos" by (auto dest: expect_Inr_D)
  with assms(3) have "pos < p" by simp
  from expect_peek[OF window_peek[OF assms(1) this], of ty val] assms(2) show ?thesis
    by simp
qed

lemma parseValue_parser_window:
  assumes "window S tokens tokens' p" and "parseValue_parser tokens pos = Inr (t, p1)" and "p1 \<le> p"
  shows "parseValue_parser tokens' pos = Inr (t, p1)"
proof -
  from assms(2) have "p1 = Suc pos" by (auto dest: parseValue_parser_Inr_D)
  with assms(3) have "pos < p" by simp
  from parseValue_parser_peek[OF window_peek[OF assms(1) this]] assms(2) show ?thesis
    by simp
qed

subsection \<open>Expressions\<close>

lemma localParserD:
  "localParser S q \<Longrightarrow> q tokens pos = Some (Inr (e, p1)) \<Longrightarrow> p1 \<le> p \<Longrightarrow>
   window S tokens tokens' p \<Longrightarrow> q tokens' pos = Some (Inr (e, p1))"
  unfolding localParser_def by blast

lemma firstMatch_window:
  assumes "window S tokens tokens' p" and "set ops \<subseteq> set S"
      and "pos < p \<or> (pos = p \<and> firstMatch tokens pos ops = None)"
  shows "firstMatch tokens' pos ops = firstMatch tokens pos ops"
  using assms(2,3)
proof (induction ops)
  case Nil
  then show ?case by simp
next
  case (Cons a ops)
  obtain ty v where a: "a = (ty, v)" by (cases a)
  from Cons.prems a have "pos < p \<or> (pos = p \<and> \<not> fst (match tokens pos ty (Some v)))"
    by (auto split: if_splits)
  with assms(1) Cons.prems(1) a
  have m: "match tokens' pos ty (Some v) = match tokens pos ty (Some v)"
    by (intro match_window) auto
  from Cons.prems a have "pos < p \<or> (pos = p \<and> firstMatch tokens pos ops = None)"
    by (auto split: if_splits)
  with Cons.IH Cons.prems(1) have "firstMatch tokens' pos ops = firstMatch tokens pos ops"
    by simp
  with m a show ?case by simp
qed

lemma binaryLoop_local:
  assumes "\<And>n. localParser S (operand n)" and "\<And>n. advances (operand n)"
      and "set ops \<subseteq> set S" and "\<forall>(ty, v)\<in>set ops. noSemicolon ty (Some v)"
      and "window S tokens tokens' p"
  shows "binaryLoop ops operand n left tokens pos = Some (Inr (e, p1)) \<Longrightarrow> p1 \<le> p \<Longrightarrow>
         binaryLoop ops operand n left tokens' pos = Some (Inr (e, p1))"
proof (induction n arbitrary: left pos)
  case 0
  then show ?case by simp
next
  case (Suc n)
  show ?case
  proof (cases "firstMatch tokens pos ops")
    case None
    with Suc.prems have "e = left" "p1 = pos" by simp_all
    with Suc.prems(2) None have "pos < p \<or> (pos = p \<and> firstMatch tokens pos ops = None)"
      by auto
    from firstMatch_window[OF assms(5,3) this] None
    have "firstMatch tokens' pos ops = None" by simp
    with \<open>e = left\<close> \<open>p1 = pos\<close> show ?thesis by simp
  next
    case (Some v)
    with Suc.prems(1) obtain right p2 where
      r: "operand n tokens (Suc pos) = Some (Inr (right, p2))" and
      l: "binaryLoop ops operand n (BinaryExpression v left right) tokens p2 = Some (Inr (e, p1))"
      by (auto simp: bindP_Some_Inr)
    from advancesD[OF assms(2) r] have "Suc pos < p2" by simp
    moreover from binaryLoop_consumed[OF assms(2,4) l] have "p2 \<le> p1" by (rule consumedD)
    ultimately have lt: "pos < p" and p2: "p2 \<le> p" using Suc.prems(2) by simp_all
    from firstMatch_window[OF assms(5,3)] lt
    have "firstMatch tokens' pos ops = firstMatch tokens pos ops" by blast
    with Some have f: "firstMatch tokens' pos ops = Some v" by simp
    from localParserD[OF assms(1) r p2 assms(5)]
    have r': "operand n tokens' (Suc pos) = Some (Inr (right, p2))" .
    from Suc.IH[OF l Suc.prems(2)]
    have "binaryLoop ops operand n (BinaryExpression v left right) tokens' p2 = Some (Inr (e, p1))" .
    with f r' show ?thesis by (simp add: bindP_def)
  qed
qed

lemma binaryLevel_local:
  assumes "\<And>n. localParser S (operand n)" and "\<And>n. advances (operand n)"
      and "set ops \<subseteq> set S" and "\<forall>(ty, v)\<in>set ops. noSemicolon ty (Some v)"
  shows "localParser S (binaryLevel ops operand n)"
  unfolding localParser_def
proof (intro allI impI)
  fix tokens tokens' pos e p1 p
  assume a: "binaryLevel ops operand n tokens pos = Some (Inr (e, p1))"
     and le: "p1 \<le> p" and w: "window S tokens tokens' p"
  from a obtain left p0 where
    l: "operand n tokens pos = Some (Inr (left, p0))" and
    r: "binaryLoop ops operand n left tokens p0 = Some (Inr (e, p1))"
    by (auto simp: binaryLevel_def bindP_Some_Inr)
  from binaryLoop_consumed[OF assms(2,4) r] have "p0 \<le> p1" by (rule consumedD)
  with le have "p0 \<le> p" by simp
  from localParserD[OF assms(1) l this w]
  have "operand n tokens' pos = Some (Inr (left, p0))" .
  moreover from binaryLoop_local[OF assms w r le]
  have "binaryLoop ops operand n left tokens' p0 = Some (Inr (e, p1))" .
  ultimately show "binaryLevel ops operand n tokens' pos = Some (Inr (e, p1))"
    by (simp add: binaryLevel_def bindP_def)
qed

lemma ladder_advances:
  assumes "advances primary"
  shows "advances (parseMultiplicative primary n)" "advances (parseAdditive primary n)"
    "advances (parseRelational primary n)" "advances (parseEquality primary n)"
    "advances (parseLogicalAnd primary n)" "advances (parseLogicalOr primary n)"
proof -
  have 1: "\<And>n. advances (parseMultiplicative primary n)"
    unfolding parseMultiplicative_binaryLevel
    by (intro binaryLevel_advances assms) (simp add: multiplicativeOps_def)
  have 2: "\<And>n. advances (parseAdditive primary n)"
    unfolding parseAdditive_binaryLevel
    by (intro binaryLevel_advances 1) (simp add: additiveOps_def)
  have 3: "\<And>n. advances (parseRelational primary n)"
    unfolding parseRelational_binaryLevel
    by (intro binaryLevel_advances 2) (simp add: relationalOps_def)
  have 4: "\<And>n. advances (parseEquality primary n)"
    unfolding parseEquality_binaryLevel
    by (intro binaryLevel_advances 3) (simp add: equalityOps_def)
  have 5: "\<And>n. advances (parseLogicalAnd primary n)"
    unfolding parseLogicalAnd_binaryLevel
    by (intro binaryLevel_advances 4) (simp add: logicalAndOps_def)
  have 6: "\<And>n. advances (parseLogicalOr primary n)"
    unfolding parseLogicalOr_binaryLevel
    by (intro binaryLevel_advances 5) (simp add: logicalOrOps_def)
  from 1 2 3 4 5 6
  show "advances (parseMultiplicative primary n)" "advances (parseAdditive primary n)"
    "advances (parseRelational primary n)" "advances (parseEquality primary n)"
    "advances (parseLogicalAnd primary n)" "advances (parseLogicalOr primary n)"
    by blast+
qed

lemma parseLogicalOr_local:
  assumes "localParser operatorSigns primary" and "advances primary"
  shows "localParser operatorSigns (parseLogicalOr primary n)"
proof -
  note adv = ladder_advances[OF assms(2)]
  have 1: "\<And>n. localParser operatorSigns (parseMultiplicative primary n)"
    unfolding parseMultiplicative_binaryLevel
    by (intro binaryLevel_local assms) (simp_all add: multiplicativeOps_def operatorSigns_def)
  have 2: "\<And>n. localParser operatorSigns (parseAdditive primary n)"
    unfolding parseAdditive_binaryLevel
    by (intro binaryLevel_local 1 adv) (simp_all add: additiveOps_def operatorSigns_def)
  have 3: "\<And>n. localParser operatorSigns (parseRelational primary n)"
    unfolding parseRelational_binaryLevel
    by (intro binaryLevel_local 2 adv) (simp_all add: relationalOps_def operatorSigns_def)
  have 4: "\<And>n. localParser operatorSigns (parseEquality primary n)"
    unfolding parseEquality_binaryLevel
    by (intro binaryLevel_local 3 adv) (simp_all add: equalityOps_def operatorSigns_def)
  have 5: "\<And>n. localParser operatorSigns (parseLogicalAnd primary n)"
    unfolding parseLogicalAnd_binaryLevel
    by (intro binaryLevel_local 4 adv) (simp_all add: logicalAndOps_def operatorSigns_def)
  show ?thesis
    unfolding parseLogicalOr_binaryLevel
    by (intro binaryLevel_local 5 adv) (simp_all add: logicalOrOps_def operatorSigns_def)
qed

lemma parsePrimary_local: "localParser operatorSigns (parsePrimary n)"
proof (induction n)
  case 0
  then show ?case by (simp add: localParser_def)
next
  case (Suc n)
  have inner: "localParser operatorSigns (parseLogicalOr (parsePrimary n) n)"
    by (rule parseLogicalOr_local[OF Suc parsePrimary_advances])
  show ?case
    unfolding localParser_def
  proof (intro allI impI)
    fix tokens tokens' pos e p1 p
    assume a: "parsePrimary (Suc n) tokens pos = Some (Inr (e, p1))"
       and le: "p1 \<le> p" and w: "window operatorSigns tokens tokens' p"
    from advancesD[OF parsePrimary_advances a] le have lt: "pos < p" by simp
    note pk = window_peek[OF w lt]
    show "parsePrimary (Suc n) tokens' pos = Some (Inr (e, p1))"
    proof (cases rule: parsePrimary_Suc_cases[OF a])
      case (1 t)
      with pk show ?thesis by simp
    next
      case (2 t)
      with pk show ?thesis by auto
    next
      case (3 t t' p2)
      from expect_consumed[OF 3(7)] le have p2: "p2 \<le> p" by auto
      from localParserD[OF inner 3(6) p2 w]
      have i': "parseLogicalOr (parsePrimary n) n tokens' (Suc pos) = Some (Inr (e, p2))" .
      from expect_window[OF w 3(7) le]
      have e': "expect tokens' p2 PUNCTUATION (Some '')'') = Inr (t', p1)" .
      from 3(5) match_peek[OF pk, of PUNCTUATION "Some ''(''"]
      have m': "fst (match tokens' pos PUNCTUATION (Some ''(''))"
        by simp
      from 3 pk m' i' e' show ?thesis by (simp add: bindP_def)
    qed
  qed
qed

lemma parseExpression_local:
  assumes "parseExpression n tokens pos = Some (Inr (e, p1))" and "p1 \<le> p"
      and "window operatorSigns tokens tokens' p"
  shows "parseExpression n tokens' pos = Some (Inr (e, p1))"
  using assms unfolding parseExpression_def
  by (rule localParserD[OF parseLogicalOr_local[OF parsePrimary_local parsePrimary_advances]])

subsection \<open>Statements\<close>

lemma comma_matched: "(PUNCTUATION, '','') \<in> set commaSigns"
  by (simp add: commaSigns_def)

lemma match_after:
  assumes "window S tokens tokens' p" and "(ty, v) \<in> set S"
      and "fst (match tokens q ty (Some v)) \<longrightarrow> Suc q \<le> p" and "q \<le> p"
  shows "match tokens' q ty (Some v) = match tokens q ty (Some v)"
  using assms by (intro match_window) auto

lemma parseWhere_None:
  "parseWhere n tokens pos = Some (Inr (None, p)) \<Longrightarrow>
   p = pos \<and> \<not> fst (match tokens pos KEYWORD (Some ''WHERE''))"
  by (auto simp: parseWhere_def bindP_Some_Inr split: if_splits)

lemma parseWhere_Some:
  "parseWhere n tokens pos = Some (Inr (Some e, p)) \<Longrightarrow>
   fst (match tokens pos KEYWORD (Some ''WHERE'')) \<and>
   parseExpression n tokens (Suc pos) = Some (Inr (e, p))"
  by (auto simp: parseWhere_def bindP_Some_Inr split: if_splits)

lemma parseWhere_local:
  assumes "parseWhere n tokens pos = Some (Inr (w, p1))" and "p1 \<le> p"
      and "window (whereSigns w) tokens tokens' p"
  shows "parseWhere n tokens' pos = Some (Inr (w, p1))"
proof (cases "fst (match tokens pos KEYWORD (Some ''WHERE''))")
  case True
  with assms(1) obtain e where e: "parseExpression n tokens (Suc pos) = Some (Inr (e, p1))"
    and w: "w = Some e"
    by (auto simp: parseWhere_def bindP_Some_Inr)
  from parseExpression_consumed[OF e] assms(2) have "pos < p" by simp
  from window_peek[OF assms(3) this]
  have m: "match tokens' pos KEYWORD (Some ''WHERE'') = match tokens pos KEYWORD (Some ''WHERE'')"
    by (rule match_peek)
  from assms(3) w have "window operatorSigns tokens tokens' p" by (simp add: whereSigns_def)
  from parseExpression_local[OF e assms(2) this] m True w show ?thesis
    by (simp add: parseWhere_def bindP_def)
next
  case False
  with assms(1) have w: "w = None" "p1 = pos" by (simp_all add: parseWhere_def)
  with assms(2,3) False
  have "match tokens' pos KEYWORD (Some ''WHERE'') = match tokens pos KEYWORD (Some ''WHERE'')"
    by (intro match_window[where S = "whereSigns w"]) (auto simp: whereSigns_def)
  with False w show ?thesis by (simp add: parseWhere_def)
qed

lemma parseIdentifierList_loop_local:
  "parseIdentifierList_loop tokens pos ids = Inr (r, p1) \<Longrightarrow> p1 \<le> p \<Longrightarrow>
   window commaSigns tokens tokens' p \<Longrightarrow> parseIdentifierList_loop tokens' pos ids = Inr (r, p1)"
proof (induction tokens pos ids arbitrary: r p1 rule: parseIdentifierList_loop.induct)
  case (1 tokens pos ids)
  from "1.prems"(1) obtain t q where e: "expect tokens pos IDENTIFIER None = Inr (t, q)"
    by (subst (asm) parseIdentifierList_loop.simps) (auto split: sum.splits)
  show ?case
  proof (cases "fst (match tokens q PUNCTUATION (Some '',''))")
    case True
    with "1.prems"(1) e
    have rec: "parseIdentifierList_loop tokens (Suc q) (ids @ [tok_value t]) = Inr (r, p1)"
      by (subst (asm) parseIdentifierList_loop.simps) simp
    from parseIdentifierList_loop_consumed[OF rec] "1.prems"(2) have q: "Suc q \<le> p"
      by (auto dest: consumedD)
    then have e': "expect tokens' pos IDENTIFIER None = Inr (t, q)"
      by (intro expect_window[OF "1.prems"(3) e]) simp
    from q have m': "match tokens' q PUNCTUATION (Some '','') = match tokens q PUNCTUATION (Some '','')"
      by (intro match_after[OF "1.prems"(3) comma_matched]) auto
    from "1.IH"[OF e refl True rec "1.prems"(2,3)] e' m' True show ?thesis
      by (subst parseIdentifierList_loop.simps) simp
  next
    case False
    with "1.prems"(1) e have r: "r = ids @ [tok_value t]" "p1 = q"
      by (subst (asm) parseIdentifierList_loop.simps, auto)+
    with "1.prems"(2) have e': "expect tokens' pos IDENTIFIER None = Inr (t, q)"
      by (intro expect_window[OF "1.prems"(3) e]) simp
    from r "1.prems"(2) False
    have m': "match tokens' q PUNCTUATION (Some '','') = match tokens q PUNCTUATION (Some '','')"
      by (intro match_after[OF "1.prems"(3) comma_matched]) auto
    from e' m' False r show ?thesis
      by (subst parseIdentifierList_loop.simps) simp
  qed
qed

lemma parseValues_loop_local:
  "parseValues_loop tokens pos vals = Inr (r, p1) \<Longrightarrow> p1 \<le> p \<Longrightarrow>
   window commaSigns tokens tokens' p \<Longrightarrow> parseValues_loop tokens' pos vals = Inr (r, p1)"
proof (induction tokens pos vals arbitrary: r p1 rule: parseValues_loop.induct)
  case (1 tokens pos vals)
  from "1.prems"(1) obtain v q where e: "parseValue_parser tokens pos = Inr (v, q)"
    by (subst (asm) parseValues_loop.simps) (auto split: sum.splits)
  show ?case
  proof (cases "fst (match tokens q PUNCTUATION (Some '',''))")
    case True
    with "1.prems"(1) e
    have rec: "parseValues_loop tokens (Suc q) (vals @ [v]) = Inr (r, p1)"
      by (subst (asm) parseValues_loop.simps) simp
    from parseValues_loop_consumed[OF rec] "1.prems"(2) have q: "Suc q \<le> p"
      by (auto dest: consumedD)
    then have e': "parseValue_parser tokens' pos = Inr (v, q)"
      by (intro parseValue_parser_window[OF "1.prems"(3) e]) simp
    from q have m': "match tokens' q PUNCTUATION (Some '','') = match tokens q PUNCTUATION (Some '','')"
      by (intro match_after[OF "1.prems"(3) comma_matched]) auto
    from "1.IH"[OF e refl True rec "1.prems"(2,3)] e' m' True show ?thesis
      by (subst parseValues_loop.simps) simp
  next
    case False
    with "1.prems"(1) e have r: "r = vals @ [v]" "p1 = q"
      by (subst (asm) parseValues_loop.simps, auto)+
    with "1.prems"(2) have e': "parseValue_parser tokens' pos = Inr (v, q)"
      by (intro parseValue_parser_window[OF "1.prems"(3) e]) simp
    from r "1.prems"(2) False
    have m': "match tokens' q PUNCTUATION (Some '','') = match tokens q PUNCTUATION (Some '','')"
      by (intro match_after[OF "1.prems"(3) comma_matched]) auto
    from e' m' False r show ?thesis
      by (subst parseValues_loop.simps) simp
  qed
qed

lemma parseColumnList_loop_local:
  "parseColumnList_loop tokens pos columns = Inr (r, p1) \<Longrightarrow> p1 \<le> p \<Longrightarrow>
   window commaSigns tokens tokens' p \<Longrightarrow> parseColumnList_loop tokens' pos columns = Inr (r, p1)"
proof (induction tokens pos columns arbitrary: r p1 rule: parseColumnList_loop.induct)
  case (1 tokens pos columns)
  let ?first = "\<lambda>tokens. if fst (match tokens pos OPERATOR (Some ''*''))
            then Inr (columns @ [''*''], Suc pos)
            else (case expect tokens pos IDENTIFIER None of
                    Inl e \<Rightarrow> Inl e
                  | Inr (column, p) \<Rightarrow> Inr (columns @ [tok_value column], p))"
  from "1.prems"(1) obtain columns' q where f: "?first tokens = Inr (columns', q)"
    by (subst (asm) parseColumnList_loop.simps) (auto split: sum.splits)
  have qs: "q = Suc pos"
    using f by (auto split: if_splits sum.splits dest: expect_Inr_D)
  have rest: "(if fst (match tokens q PUNCTUATION (Some '',''))
               then parseColumnList_loop tokens (Suc q) columns' else Inr (columns', q)) = Inr (r, p1)"
    using "1.prems"(1) f by (subst (asm) parseColumnList_loop.simps) simp
  have qp: "q \<le> p" and mq: "fst (match tokens q PUNCTUATION (Some '','')) \<longrightarrow> Suc q \<le> p"
    using rest "1.prems"(2)
    by (auto split: if_splits dest!: parseColumnList_loop_consumed dest: consumedD)
  from qs qp have "pos < p" by simp
  from window_peek[OF "1.prems"(3) this]
  have "match tokens' pos OPERATOR (Some ''*'') = match tokens pos OPERATOR (Some ''*'')"
       "expect tokens' pos IDENTIFIER None = expect tokens pos IDENTIFIER None"
    by (rule match_peek, rule expect_peek)
  with f have f': "?first tokens' = Inr (columns', q)" by (auto split: if_splits)
  from qp mq have m': "match tokens' q PUNCTUATION (Some '','') = match tokens q PUNCTUATION (Some '','')"
    by (intro match_after[OF "1.prems"(3) comma_matched]) auto
  show ?case
  proof (cases "fst (match tokens q PUNCTUATION (Some '',''))")
    case True
    with rest have rec: "parseColumnList_loop tokens (Suc q) columns' = Inr (r, p1)" by simp
    from "1.IH"[OF f refl True rec "1.prems"(2,3)] f' m' True show ?thesis
      by (subst parseColumnList_loop.simps) simp
  next
    case False
    with rest f' m' show ?thesis
      by (subst parseColumnList_loop.simps) simp
  qed
qed

lemma parseValuesList_loop_local:
  "parseValuesList_loop tokens pos valuesList = Inr (r, p1) \<Longrightarrow> p1 \<le> p \<Longrightarrow>
   window commaSigns tokens tokens' p \<Longrightarrow> parseValuesList_loop tokens' pos valuesList = Inr (r, p1)"
proof (induction tokens pos valuesList arbitrary: r p1 rule: parseValuesList_loop.induct)
  case (1 tokens pos valuesList)
  from "1.prems"(1) obtain t1 q1 where e1: "expect tokens pos PUNCTUATION (Some ''('') = Inr (t1, q1)"
    by (subst (asm) parseValuesList_loop.simps) (auto split: sum.splits)
  from "1.prems"(1) e1 obtain vals q2 where vs: "parseValues_loop tokens q1 [] = Inr (vals, q2)"
    by (subst (asm) parseValuesList_loop.simps) (auto split: sum.splits)
  from "1.prems"(1) e1 vs obtain t3 q3 where e3: "expect tokens q2 PUNCTUATION (Some '')'') = Inr (t3, q3)"
    by (subst (asm) parseValuesList_loop.simps) (auto split: sum.splits)
  have rest: "(if fst (match tokens q3 PUNCTUATION (Some '',''))
               then parseValuesList_loop tokens (Suc q3) (valuesList @ [vals])
               else Inr (valuesList @ [vals], q3)) = Inr (r, p1)"
    using "1.prems"(1) e1 vs e3 by (subst (asm) parseValuesList_loop.simps) simp
  have q3: "q3 \<le> p" and mq: "fst (match tokens q3 PUNCTUATION (Some '','')) \<longrightarrow> Suc q3 \<le> p"
    using rest "1.prems"(2)
    by (auto split: if_splits dest!: parseValuesList_loop_consumed dest: consumedD)
  from expect_consumed[OF e3] q3 have q2: "q2 \<le> p" by auto
  from parseValues_loop_consumed[OF vs] q2 have q1: "q1 \<le> p" by (auto dest: consumedD)
  note e1' = expect_window[OF "1.prems"(3) e1 q1]
  note vs' = parseValues_loop_local[OF vs q2 "1.prems"(3)]
  note e3' = expect_window[OF "1.prems"(3) e3 q3]
  from q3 mq have m': "match tokens' q3 PUNCTUATION (Some '','') = match tokens q3 PUNCTUATION (Some '','')"
    by (intro match_after[OF "1.prems"(3) comma_matched]) auto
  show ?case
  proof (cases "fst (match tokens q3 PUNCTUATION (Some '',''))")
    case True
    with rest have rec: "parseValuesList_loop tokens (Suc q3) (valuesList @ [vals]) = Inr (r, p1)"
      by simp
    from "1.IH"[OF e1 refl vs refl e3 refl True rec "1.prems"(2,3)] e1' vs' e3' m' True
    show ?thesis
      by (subst parseValuesList_loop.simps) simp
  next
    case False
    with rest e1' vs' e3' m' show ?thesis
      by (subst parseValuesList_loop.simps) simp
  qed
qed

lemma parseAssignments_loop_local:
  "parseAssignments_loop tokens pos assignments = Inr (r, p1) \<Longrightarrow> p1 \<le> p \<Longrightarrow>
   window commaSigns tokens tokens' p \<Longrightarrow> parseAssignments_loop tokens' pos assignments = Inr (r, p1)"
proof (induction tokens pos assignments arbitrary: r p1 rule: parseAssignments_loop.induct)
  case (1 tokens pos assignments)
  from "1.prems"(1) obtain column q1 where e1: "expect tokens pos IDENTIFIER None = Inr (column, q1)"
    by (subst (asm) parseAssignments_loop.simps) (auto split: sum.splits)
  from "1.prems"(1) e1 obtain t2 q2 where e2: "expect tokens q1 OPERATOR (Some ''='') = Inr (t2, q2)"
    by (subst (asm) parseAssignments_loop.simps) (auto split: sum.splits)
  from "1.prems"(1) e1 e2 obtain v q3 where v: "parseValue_parser tokens q2 = Inr (v, q3)"
    by (subst (asm) parseAssignments_loop.simps) (auto split: sum.splits)
  have rest: "(if fst (match tokens q3 PUNCTUATION (Some '',''))
               then parseAssignments_loop tokens (Suc q3) (assignments @ [(tok_value column, v)])
               else Inr (assignments @ [(tok_value column, v)], q3)) = Inr (r, p1)"
    using "1.prems"(1) e1 e2 v by (subst (asm) parseAssignments_loop.simps) simp
  have q3: "q3 \<le> p" and mq: "fst (match tokens q3 PUNCTUATION (Some '','')) \<longrightarrow> Suc q3 \<le> p"
    using rest "1.prems"(2)
    by (auto split: if_splits dest!: parseAssignments_loop_consumed dest: consumedD)
  from parseValue_parser_consumed[OF v] q3 have q2: "q2 \<le> p" by auto
  from expect_consumed[OF e2] q2 have q1: "q1 \<le> p" by auto
  note e1' = expect_window[OF "1.prems"(3) e1 q1]
  note e2' = expect_window[OF "1.prems"(3) e2 q2]
  note v' = parseValue_parser_window[OF "1.prems"(3) v q3]
  from q3 mq have m': "match tokens' q3 PUNCTUATION (Some '','') = match tokens q3 PUNCTUATION (Some '','')"
    by (intro match_after[OF "1.prems"(3) comma_matched]) auto
  show ?case
  proof (cases "fst (match tokens q3 PUNCTUATION (Some '',''))")
    case True
    with rest
    have rec: "parseAssignments_loop tokens (Suc q3) (assignments @ [(tok_value column, v)]) = Inr (r, p1)"
      by simp
    from "1.IH"[OF e1 refl e2 refl v refl True rec "1.prems"(2,3)] e1' e2' v' m' True
    show ?thesis
      by (subst parseAssignments_loop.simps) simp
  next
    case False
    with rest e1' e2' v' m' show ?thesis
      by (subst parseAssignments_loop.simps) simp
  qed
qed

lemma parseInsert_columns_local:
  assumes "parseInsert_columns tokens pos = Inr (columns, p1)" and "p1 < p"
      and "window S tokens tokens' p"
  shows "parseInsert_columns tokens' pos = Inr (columns, p1)"
proof (cases "fst (match tokens pos PUNCTUATION (Some ''(''))")
  case True
  with assms(1) obtain q4 t5 where
    l: "parseIdentifierList_loop tokens (Suc pos) [] = Inr (columns, q4)" and
    e: "expect tokens q4 PUNCTUATION (Some '')'') = Inr (t5, p1)"
    by (auto simp: parseInsert_columns_def parseIdentifierList_def split: sum.splits)
  from expect_consumed[OF e] assms(2) have q4: "q4 < p" by auto
  from parseIdentifierList_loop_consumed[OF l] q4 have "pos < p" by (auto dest: consumedD)
  from window_peek[OF assms(3) this]
  have "match tokens' pos PUNCTUATION (Some ''('') = match tokens pos PUNCTUATION (Some ''('')"
    by (rule match_peek)
  moreover from assms(2) have "p1 \<le> p" by simp
  moreover note parseIdentifierList_loop_local[OF l le_refl window_before[OF assms(3) q4]]
  ultimately show ?thesis
    using True expect_window[OF assms(3) e]
    by (simp add: parseInsert_columns_def parseIdentifierList_def)
next
  case False
  with assms(1) have c: "columns = []" "p1 = pos" by (simp_all add: parseInsert_columns_def)
  with assms(2) have "pos < p" by simp
  from window_peek[OF assms(3) this]
  have "match tokens' pos PUNCTUATION (Some ''('') = match tokens pos PUNCTUATION (Some ''('')"
    by (rule match_peek)
  with False c show ?thesis by (simp add: parseInsert_columns_def)
qed

lemma parseSelect_local:
  assumes "parseSelect n tokens pos = Some (Inr (ast, p1))" and "p1 \<le> p"
      and "window (continuation ast) tokens tokens' p"
  shows "parseSelect n tokens' pos = Some (Inr (ast, p1))"
proof (cases rule: parseSelect_steps[OF assms(1)])
  case (1 t1 q1 columns q2 t3 q3 table q4 w)
  from assms(3) 1(6) have ww: "window (whereSigns w) tokens tokens' p"
    by (simp add: continuation_def)
  from parseWhere_consumed[OF 1(5)] assms(2) have q4: "q4 \<le> p" by (auto dest: consumedD)
  from expect_consumed[OF 1(4)] q4 have q3: "q3 \<le> p" by auto
  from expect_consumed[OF 1(3)] q3 have q2: "q2 < p" by auto
  from parseColumnList_loop_consumed[OF 1(2)] q2 have q1: "q1 \<le> p" by (auto dest: consumedD)
  from expect_window[OF ww 1(1) q1]
    parseColumnList_loop_local[OF 1(2) le_refl window_before[OF ww q2]]
    expect_window[OF ww 1(3) q3] expect_window[OF ww 1(4) q4]
    parseWhere_local[OF 1(5) assms(2) ww] 1(6)
  show ?thesis
    by (simp add: parseSelect_def parseColumnList_def bindP_def)
qed

lemma parseUpdate_local:
  assumes "parseUpdate n tokens pos = Some (Inr (ast, p1))" and "p1 \<le> p"
      and "window (continuation ast) tokens tokens' p"
  shows "parseUpdate n tokens' pos = Some (Inr (ast, p1))"
proof (cases rule: parseUpdate_steps[OF assms(1)])
  case (1 t1 q1 table q2 t3 q3 assignments q4 w)
  from parseWhere_consumed[OF 1(5)] assms(2) have q4: "q4 \<le> p" by (auto dest: consumedD)
  from parseAssignments_loop_consumed[OF 1(4)] q4 have q3: "q3 \<le> p" by (auto dest: consumedD)
  from expect_consumed[OF 1(3)] q3 have q2: "q2 \<le> p" by auto
  from expect_consumed[OF 1(2)] q2 have q1: "q1 \<le> p" by auto
  have ww: "window (whereSigns w) tokens tokens' p"
    using assms(3) 1(6)
    by (cases w) (auto simp: continuation_def intro: window_mono)
  have wa: "window commaSigns tokens tokens' q4"
  proof (cases w)
    case None
    with 1(5) have "p1 = q4" by (auto dest: parseWhere_None)
    show ?thesis
    proof (cases "q4 < p")
      case True
      from window_before[OF assms(3) True] show ?thesis .
    next
      case False
      with q4 have "q4 = p" by simp
      with assms(3) 1(6) None show ?thesis
        by (auto simp: continuation_def intro: window_mono)
    qed
  next
    case (Some e)
    with 1(5) have "parseExpression n tokens (Suc q4) = Some (Inr (e, p1))"
      by (auto dest: parseWhere_Some)
    from parseExpression_consumed[OF this] assms(2) have "q4 < p" by simp
    from window_before[OF assms(3) this] show ?thesis .
  qed
  from expect_window[OF ww 1(1) q1] expect_window[OF ww 1(2) q2]
    expect_window[OF ww 1(3) q3] parseAssignments_loop_local[OF 1(4) le_refl wa]
    parseWhere_local[OF 1(5) assms(2) ww] 1(6)
  show ?thesis
    by (simp add: parseUpdate_def parseAssignments_def bindP_def)
qed

lemma parseDelete_local:
  assumes "parseDelete n tokens pos = Some (Inr (ast, p1))" and "p1 \<le> p"
      and "window (continuation ast) tokens tokens' p"
  shows "parseDelete n tokens' pos = Some (Inr (ast, p1))"
proof (cases rule: parseDelete_steps[OF assms(1)])
  case (1 t1 q1 t2 q2 table q3 w)
  from assms(3) 1(5) have ww: "window (whereSigns w) tokens tokens' p"
    by (simp add: continuation_def)
  from parseWhere_consumed[OF 1(4)] assms(2) have q3: "q3 \<le> p" by (auto dest: consumedD)
  from expect_consumed[OF 1(3)] q3 have q2: "q2 \<le> p" by auto
  from expect_consumed[OF 1(2)] q2 have q1: "q1 \<le> p" by auto
  from expect_window[OF ww 1(1) q1] expect_window[OF ww 1(2) q2]
    expect_window[OF ww 1(3) q3] parseWhere_local[OF 1(4) assms(2) ww] 1(5)
  show ?thesis
    by (simp add: parseDelete_def bindP_def)
qed

lemma parseInsert_local:
  assumes "parseInsert tokens pos = Inr (ast, p1)" and "p1 \<le> p"
      and "window (continuation ast) tokens tokens' p"
  shows "parseInsert tokens' pos = Inr (ast, p1)"
proof (cases rule: parseInsert_steps[OF assms(1)])
  case (1 t1 q1 t2 q2 table q3 columns q6 t7 q7 valuesList)
  from assms(3) 1(7) have wc: "window commaSigns tokens tokens' p"
    by (simp add: continuation_def)
  from parseValuesList_loop_consumed[OF 1(6)] assms(2) have q7: "q7 \<le> p" by (auto dest: consumedD)
  from expect_consumed[OF 1(5)] q7 have q6: "q6 < p" by auto
  from parseInsert_columns_consumed[OF 1(4)] q6 have q3: "q3 \<le> p" by (auto dest: consumedD)
  from expect_consumed[OF 1(3)] q3 have q2: "q2 \<le> p" by auto
  from expect_consumed[OF 1(2)] q2 have q1: "q1 \<le> p" by auto
  from expect_window[OF wc 1(1) q1] expect_window[OF wc 1(2) q2]
    expect_window[OF wc 1(3) q3] parseInsert_columns_local[OF 1(4) q6 wc]
    expect_window[OF wc 1(5) q7] parseValuesList_loop_local[OF 1(6) assms(2) wc] 1(7)
  show ?thesis
    unfolding parseInsert_def parseInsert_columns_def[symmetric] parseValuesList_def
    by simp
qed

lemma parse_cases:
  assumes "parse n tokens = Some (Inr (ast, p))"
  obtains
    (Select) t where "peek tokens 0 = Some t" "toUpperCase (tok_value t) = ''SELECT''"
      "parseSelect n tokens 0 = Some (Inr (ast, p))"
  | (Insert) t where "peek tokens 0 = Some t" "toUpperCase (tok_value t) = ''INSERT''"
      "parseInsert tokens 0 = Inr (ast, p)"
  | (Update) t where "peek tokens 0 = Some t" "toUpperCase (tok_value t) = ''UPDATE''"
      "parseUpdate n tokens 0 = Some (Inr (ast, p))"
  | (Delete) t where "peek tokens 0 = Some t" "toUpperCase (tok_value t) = ''DELETE''"
      "parseDelete n tokens 0 = Some (Inr (ast, p))"
  | (Show) t where "peek tokens 0 = Some t" "toUpperCase (tok_value t) = ''SHOW''"
      "parseShow tokens 0 = Inr (ast, p)"
proof (cases "peek tokens 0")
  case None
  with assms show ?thesis by (simp add: parse_def)
next
  case (Some t)
  with assms Select[of t] Insert[of t] Update[of t] Delete[of t] Show[of t] show ?thesis
    by (auto simp: parse_def Let_def split: if_splits)
qed

lemma parse_consumed:
  assumes "parse n tokens = Some (Inr (ast, p))" and "ast \<noteq> ShowTablesStmt"
  shows "0 < p \<and> consumed tokens 0 p"
proof (cases rule: parse_cases[OF assms(1)])
  case (1 t)
  then show ?thesis by (auto dest: parseSelect_consumed)
next
  case (2 t)
  then show ?thesis by (auto dest: parseInsert_consumed)
next
  case (3 t)
  then show ?thesis by (auto dest: parseUpdate_consumed)
next
  case (4 t)
  then show ?thesis by (auto dest: parseDelete_consumed)
next
  case (5 t)
  with assms(2) show ?thesis by (auto dest: parseShow_statement)
qed

lemma parse_local:
  assumes "parse n tokens = Some (Inr (ast, p))" and "ast \<noteq> ShowTablesStmt"
      and "take p tokens' = take p tokens" and "\<not> continuesAt (continuation ast) tokens' p"
  shows "parse n tokens' = Some (Inr (ast, p))"
proof -
  from parse_consumed[OF assms(1,2)] have p: "0 < p" "p \<le> length tokens"
    by (auto simp: consumed_def)
  with assms(3,4) have w: "window (continuation ast) tokens tokens' p" by (simp add: window_def)
  note pk = window_peek[OF w p(1)]
  show ?thesis
  proof (cases rule: parse_cases[OF assms(1)])
    case (1 t)
    with pk parseSelect_local[OF 1(3) le_refl w] show ?thesis
      by (simp add: parse_def)
  next
    case (2 t)
    with pk parseInsert_local[OF 2(3) le_refl w] show ?thesis
      by (simp add: parse_def)
  next
    case (3 t)
    with pk parseUpdate_local[OF 3(3) le_refl w] show ?thesis
      by (simp add: parse_def)
  next
    case (4 t)
    with pk parseDelete_local[OF 4(3) le_refl w] show ?thesis
      by (simp add: parse_def)
  next
    case (5 t)
    with assms(2) show ?thesis by (auto dest: parseShow_statement)
  qed
qed

subsection \<open>Where a parser stops\<close>

text \<open>
  At the position where a method of the parser stops, the token is none of the signs that the
  method tried there.
\<close>

lemma stopsBeforeD:
  "stopsBefore S q \<Longrightarrow> q tokens pos = Some (Inr (e, p)) \<Longrightarrow> \<not> continuesAt S tokens p"
  unfolding stopsBefore_def by blast

lemma firstMatch_None_continuesAt:
  "firstMatch tokens pos ops = None \<Longrightarrow> \<not> continuesAt ops tokens pos"
  by (auto simp: firstMatch_None dest!: continuesAt_match)

lemma binaryLoop_stops:
  assumes "\<And>n. stopsBefore S (operand n)"
  shows "binaryLoop ops operand n left tokens pos = Some (Inr (e, p)) \<Longrightarrow>
         \<not> continuesAt S tokens pos \<Longrightarrow> \<not> continuesAt (S @ ops) tokens p"
proof (induction n arbitrary: left pos)
  case 0
  then show ?case by simp
next
  case (Suc n)
  show ?case
  proof (cases "firstMatch tokens pos ops")
    case None
    with Suc.prems(1) have "p = pos" by simp
    with Suc.prems(2) firstMatch_None_continuesAt[OF None] show ?thesis
      by (simp add: continuesAt_append)
  next
    case (Some v)
    with Suc.prems(1) obtain right p2 where
      r: "operand n tokens (Suc pos) = Some (Inr (right, p2))" and
      l: "binaryLoop ops operand n (BinaryExpression v left right) tokens p2 = Some (Inr (e, p))"
      by (auto simp: bindP_Some_Inr)
    from Suc.IH[OF l stopsBeforeD[OF assms r]] show ?thesis .
  qed
qed

lemma binaryLevel_stops:
  assumes "\<And>n. stopsBefore S (operand n)"
  shows "stopsBefore (S @ ops) (binaryLevel ops operand n)"
  unfolding stopsBefore_def
proof (intro allI impI)
  fix tokens pos e p
  assume "binaryLevel ops operand n tokens pos = Some (Inr (e, p))"
  then obtain left p0 where
    l: "operand n tokens pos = Some (Inr (left, p0))" and
    r: "binaryLoop ops operand n left tokens p0 = Some (Inr (e, p))"
    by (auto simp: binaryLevel_def bindP_Some_Inr)
  from binaryLoop_stops[OF assms r stopsBeforeD[OF assms l]]
  show "\<not> continuesAt (S @ ops) tokens p" .
qed

lemma parseLogicalOr_stops: "stopsBefore operatorSigns (parseLogicalOr primary n)"
proof -
  have 0: "\<And>n :: nat. stopsBefore [] primary"
    by (simp add: stopsBefore_def continuesAt_def split: option.splits)
  have 1: "\<And>n. stopsBefore ([] @ multiplicativeOps) (parseMultiplicative primary n)"
    unfolding parseMultiplicative_binaryLevel by (rule binaryLevel_stops) (rule 0)
  have 2: "\<And>n. stopsBefore (([] @ multiplicativeOps) @ additiveOps) (parseAdditive primary n)"
    unfolding parseAdditive_binaryLevel by (rule binaryLevel_stops) (rule 1)
  have 3: "\<And>n. stopsBefore ((([] @ multiplicativeOps) @ additiveOps) @ relationalOps)
                  (parseRelational primary n)"
    unfolding parseRelational_binaryLevel by (rule binaryLevel_stops) (rule 2)
  have 4: "\<And>n. stopsBefore (((([] @ multiplicativeOps) @ additiveOps) @ relationalOps) @ equalityOps)
                  (parseEquality primary n)"
    unfolding parseEquality_binaryLevel by (rule binaryLevel_stops) (rule 3)
  have 5: "\<And>n. stopsBefore ((((([] @ multiplicativeOps) @ additiveOps) @ relationalOps) @ equalityOps)
                     @ logicalAndOps) (parseLogicalAnd primary n)"
    unfolding parseLogicalAnd_binaryLevel by (rule binaryLevel_stops) (rule 4)
  have "stopsBefore (((((([] @ multiplicativeOps) @ additiveOps) @ relationalOps) @ equalityOps)
                     @ logicalAndOps) @ logicalOrOps) (parseLogicalOr primary n)"
    unfolding parseLogicalOr_binaryLevel by (rule binaryLevel_stops) (rule 5)
  then show ?thesis by (simp add: operatorSigns_def)
qed

lemma parseExpression_stops:
  "parseExpression n tokens pos = Some (Inr (e, p)) \<Longrightarrow> \<not> continuesAt operatorSigns tokens p"
  unfolding parseExpression_def by (rule stopsBeforeD[OF parseLogicalOr_stops])

lemma not_match_continuesAt:
  "\<not> fst (match tokens pos ty (Some v)) \<Longrightarrow> \<not> continuesAt [(ty, v)] tokens pos"
  by (auto dest!: continuesAt_match)

lemma parseWhere_stops:
  assumes "parseWhere n tokens pos = Some (Inr (w, p))"
  shows "\<not> continuesAt (whereSigns w) tokens p"
proof (cases "fst (match tokens pos KEYWORD (Some ''WHERE''))")
  case True
  with assms obtain e where "parseExpression n tokens (Suc pos) = Some (Inr (e, p))" "w = Some e"
    by (auto simp: parseWhere_def bindP_Some_Inr)
  with parseExpression_stops show ?thesis by (simp add: whereSigns_def)
next
  case False
  with assms have "w = None" "p = pos" by (simp_all add: parseWhere_def)
  with not_match_continuesAt[OF False] show ?thesis by (simp add: whereSigns_def)
qed

lemma parseValuesList_loop_stops:
  "parseValuesList_loop tokens pos valuesList = Inr (r, p) \<Longrightarrow> \<not> continuesAt commaSigns tokens p"
proof (induction tokens pos valuesList arbitrary: r p rule: parseValuesList_loop.induct)
  case (1 tokens pos valuesList)
  from "1.prems" obtain t1 q1 where e1: "expect tokens pos PUNCTUATION (Some ''('') = Inr (t1, q1)"
    by (subst (asm) parseValuesList_loop.simps) (auto split: sum.splits)
  from "1.prems" e1 obtain vals q2 where vs: "parseValues_loop tokens q1 [] = Inr (vals, q2)"
    by (subst (asm) parseValuesList_loop.simps) (auto split: sum.splits)
  from "1.prems" e1 vs obtain t3 q3 where e3: "expect tokens q2 PUNCTUATION (Some '')'') = Inr (t3, q3)"
    by (subst (asm) parseValuesList_loop.simps) (auto split: sum.splits)
  have rest: "(if fst (match tokens q3 PUNCTUATION (Some '',''))
               then parseValuesList_loop tokens (Suc q3) (valuesList @ [vals])
               else Inr (valuesList @ [vals], q3)) = Inr (r, p)"
    using "1.prems" e1 vs e3 by (subst (asm) parseValuesList_loop.simps) simp
  show ?case
  proof (cases "fst (match tokens q3 PUNCTUATION (Some '',''))")
    case True
    with rest have rec: "parseValuesList_loop tokens (Suc q3) (valuesList @ [vals]) = Inr (r, p)"
      by simp
    from "1.IH"[OF e1 refl vs refl e3 refl True rec] show ?thesis .
  next
    case False
    with rest have "p = q3" by simp
    with not_match_continuesAt[OF False] show ?thesis by (simp add: commaSigns_def)
  qed
qed

lemma parseAssignments_loop_stops:
  "parseAssignments_loop tokens pos assignments = Inr (r, p) \<Longrightarrow> \<not> continuesAt commaSigns tokens p"
proof (induction tokens pos assignments arbitrary: r p rule: parseAssignments_loop.induct)
  case (1 tokens pos assignments)
  from "1.prems" obtain column q1 where e1: "expect tokens pos IDENTIFIER None = Inr (column, q1)"
    by (subst (asm) parseAssignments_loop.simps) (auto split: sum.splits)
  from "1.prems" e1 obtain t2 q2 where e2: "expect tokens q1 OPERATOR (Some ''='') = Inr (t2, q2)"
    by (subst (asm) parseAssignments_loop.simps) (auto split: sum.splits)
  from "1.prems" e1 e2 obtain v q3 where v: "parseValue_parser tokens q2 = Inr (v, q3)"
    by (subst (asm) parseAssignments_loop.simps) (auto split: sum.splits)
  have rest: "(if fst (match tokens q3 PUNCTUATION (Some '',''))
               then parseAssignments_loop tokens (Suc q3) (assignments @ [(tok_value column, v)])
               else Inr (assignments @ [(tok_value column, v)], q3)) = Inr (r, p)"
    using "1.prems" e1 e2 v by (subst (asm) parseAssignments_loop.simps) simp
  show ?case
  proof (cases "fst (match tokens q3 PUNCTUATION (Some '',''))")
    case True
    with rest
    have rec: "parseAssignments_loop tokens (Suc q3) (assignments @ [(tok_value column, v)]) = Inr (r, p)"
      by simp
    from "1.IH"[OF e1 refl e2 refl v refl True rec] show ?thesis .
  next
    case False
    with rest have "p = q3" by simp
    with not_match_continuesAt[OF False] show ?thesis by (simp add: commaSigns_def)
  qed
qed

lemma parse_stops:
  assumes "parse n tokens = Some (Inr (ast, p))"
  shows "\<not> continuesAt (continuation ast) tokens p"
proof (cases rule: parse_cases[OF assms])
  case (1 t)
  from 1(3) show ?thesis
  proof (cases rule: parseSelect_steps)
    case (1 t1 q1 columns q2 t3 q3 table q4 w)
    with parseWhere_stops[OF 1(5)] show ?thesis by (simp add: continuation_def)
  qed
next
  case (2 t)
  from 2(3) show ?thesis
  proof (cases rule: parseInsert_steps)
    case (1 t1 q1 t2 q2 table q3 columns q6 t7 q7 valuesList)
    with parseValuesList_loop_stops[OF 1(6)] show ?thesis by (simp add: continuation_def)
  qed
next
  case (3 t)
  from 3(3) show ?thesis
  proof (cases rule: parseUpdate_steps)
    case (1 t1 q1 table q2 t3 q3 assignments q4 w)
    show ?thesis
    proof (cases w)
      case None
      with 1(5) have "p = q4" by (auto dest: parseWhere_None)
      with parseAssignments_loop_stops[OF 1(4)] parseWhere_stops[OF 1(5)] None 1(6)
      show ?thesis by (simp add: continuation_def continuesAt_append)
    next
      case (Some e)
      with parseWhere_stops[OF 1(5)] 1(6) show ?thesis by (simp add: continuation_def)
    qed
  qed
next
  case (4 t)
  from 4(3) show ?thesis
  proof (cases rule: parseDelete_steps)
    case (1 t1 q1 t2 q2 table q3 w)
    with parseWhere_stops[OF 1(4)] show ?thesis by (simp add: continuation_def)
  qed
next
  case (5 t)
  then have "ast = ShowTablesStmt" by (auto dest: parseShow_statement)
  then show ?thesis by (simp add: continuation_def continuesAt_def split: option.splits)
qed

lemma semicolon_continues_nothing:
  assumes "peek tokens p = Some t" and "isSemicolon t"
  shows "\<not> continuesAt (continuation ast) tokens p"
proof -
  have "\<forall>(ty, v)\<in>set (continuation ast). \<not> sign ty v t"
    using assms(2)
    by (cases ast)
       (auto simp: continuation_def whereSigns_def commaSigns_def operatorSigns_def
          multiplicativeOps_def additiveOps_def relationalOps_def equalityOps_def
          logicalAndOps_def logicalOrOps_def isSemicolon_def sign_def toUpperCase_def
          split: option.splits)
  with assms(1) show ?thesis by (auto simp: continuesAt_def)
qed

lemma parseShow_position:
  assumes "parseShow tokens 0 = Inr (ast, p)"
  shows "p = (if fst (match tokens 2 PUNCTUATION (Some '';'')) then 3 else 2)"
proof -
  from assms obtain t1 p1 where e: "expect tokens 0 KEYWORD (Some ''SHOW'') = Inr (t1, p1)"
    by (auto simp: parseShow_def split: sum.splits)
  then have p1: "p1 = Suc 0" by (auto dest: expect_Inr_D)
  from assms e p1 have "p = snd (match tokens (Suc (Suc 0)) PUNCTUATION (Some '';''))"
    by (auto simp: parseShow_def split: if_splits option.splits)
  then show ?thesis
    by (subst (asm) match_eq) (simp add: eval_nat_numeral)
qed

section \<open>The tokens behind a statement\<close>

text \<open>
  Claim C10, as amended. The claim says that any tokens behind a complete statement are
  ignored. The parser is greedy: where it stops it has tried the signs that continue the
  statement (\<open>continuation\<close>: a binary operator behind the expression of a WHERE clause, WHERE
  behind a SELECT or DELETE statement with no WHERE clause, a comma or WHERE behind an UPDATE
  statement with no WHERE clause, a comma behind an INSERT statement), and a token that is one
  of them is read as a part of the statement. When \<^verbatim>\<open>parse\<close> returns the AST of a SELECT,
  INSERT, UPDATE or DELETE statement and stops at position \<open>p\<close>, it has consumed at least one
  token and no semicolon, and the token at \<open>p\<close> does not continue the statement. On a token array
  with the same first \<open>p\<close> tokens it returns the same AST, stopping at the same position, if and
  only if the next token of that array is absent or does not continue the statement: whatever
  else follows is never read, and \<^verbatim>\<open>parseSQL\<close> returns the AST. A semicolon continues no
  statement, so the statement followed by a semicolon and any tokens is parsed to the same AST.
  SHOW TABLES stops behind a semicolon that follows it, at position 3, and at position 2
  otherwise.
\<close>

theorem parse_ignores_remaining_tokens:
  assumes "parse n tokens = Some (Inr (ast, p))"
  shows "(ast \<noteq> ShowTablesStmt \<longrightarrow>
            0 < p \<and> p \<le> length tokens \<and> (\<forall>i<p. \<not> isSemicolon (tokens ! i)) \<and>
            \<not> continuesAt (continuation ast) tokens p \<and>
            (\<forall>tokens'. take p tokens' = take p tokens \<longrightarrow>
               (parse n tokens' = Some (Inr (ast, p)) \<longleftrightarrow>
                  \<not> continuesAt (continuation ast) tokens' p) \<and>
               (\<not> continuesAt (continuation ast) tokens' p \<longrightarrow>
                  parseSQL n tokens' = Some (Inr ast))) \<and>
            (\<forall>semi rest. isSemicolon semi \<longrightarrow>
               parseSQL n (take p tokens @ semi # rest) = Some (Inr ast)))
       \<and> (ast = ShowTablesStmt \<longrightarrow>
            p = (if fst (match tokens 2 PUNCTUATION (Some '';'')) then 3 else 2))"
proof (rule conjI)
  show "ast \<noteq> ShowTablesStmt \<longrightarrow>
            0 < p \<and> p \<le> length tokens \<and> (\<forall>i<p. \<not> isSemicolon (tokens ! i)) \<and>
            \<not> continuesAt (continuation ast) tokens p \<and>
            (\<forall>tokens'. take p tokens' = take p tokens \<longrightarrow>
               (parse n tokens' = Some (Inr (ast, p)) \<longleftrightarrow>
                  \<not> continuesAt (continuation ast) tokens' p) \<and>
               (\<not> continuesAt (continuation ast) tokens' p \<longrightarrow>
                  parseSQL n tokens' = Some (Inr ast))) \<and>
            (\<forall>semi rest. isSemicolon semi \<longrightarrow>
               parseSQL n (take p tokens @ semi # rest) = Some (Inr ast))"
  proof
    assume ns: "ast \<noteq> ShowTablesStmt"
    from parse_consumed[OF assms ns]
    have a: "0 < p" "p \<le> length tokens" "\<forall>i<p. \<not> isSemicolon (tokens ! i)"
      by (auto simp: consumed_def)
    have b: "\<not> continuesAt (continuation ast) tokens p"
      by (rule parse_stops[OF assms])
    have loc: "parse n tokens' = Some (Inr (ast, p))"
      if "take p tokens' = take p tokens" "\<not> continuesAt (continuation ast) tokens' p"
      for tokens'
      using that by (rule parse_local[OF assms ns])
    have c: "\<forall>tokens'. take p tokens' = take p tokens \<longrightarrow>
               (parse n tokens' = Some (Inr (ast, p)) \<longleftrightarrow>
                  \<not> continuesAt (continuation ast) tokens' p) \<and>
               (\<not> continuesAt (continuation ast) tokens' p \<longrightarrow>
                  parseSQL n tokens' = Some (Inr ast))"
    proof (intro allI impI)
      fix tokens' assume t: "take p tokens' = take p tokens"
      have "parse n tokens' = Some (Inr (ast, p)) \<longleftrightarrow> \<not> continuesAt (continuation ast) tokens' p"
        using loc[OF t] parse_stops[of n tokens' ast p] by blast
      moreover have "\<not> continuesAt (continuation ast) tokens' p \<longrightarrow>
                       parseSQL n tokens' = Some (Inr ast)"
        using loc[OF t] by (auto simp: parseSQL_def bindP_def)
      ultimately show
        "(parse n tokens' = Some (Inr (ast, p)) \<longleftrightarrow> \<not> continuesAt (continuation ast) tokens' p) \<and>
         (\<not> continuesAt (continuation ast) tokens' p \<longrightarrow> parseSQL n tokens' = Some (Inr ast))"
        by blast
    qed
    have d: "\<forall>semi rest. isSemicolon semi \<longrightarrow>
               parseSQL n (take p tokens @ semi # rest) = Some (Inr ast)"
    proof (intro allI impI)
      fix semi rest assume s: "isSemicolon semi"
      let ?tokens' = "take p tokens @ semi # rest"
      from a(2) have l: "length (take p tokens) = p" by simp
      then have t: "take p ?tokens' = take p tokens" by simp
      from l have "peek ?tokens' p = Some semi"
        by (simp add: peek_def nth_append)
      from semicolon_continues_nothing[OF this s]
      have "\<not> continuesAt (continuation ast) ?tokens' p" .
      from loc[OF t this] show "parseSQL n ?tokens' = Some (Inr ast)"
        by (simp add: parseSQL_def bindP_def)
    qed
    from a b c d show "0 < p \<and> p \<le> length tokens \<and> (\<forall>i<p. \<not> isSemicolon (tokens ! i)) \<and>
            \<not> continuesAt (continuation ast) tokens p \<and>
            (\<forall>tokens'. take p tokens' = take p tokens \<longrightarrow>
               (parse n tokens' = Some (Inr (ast, p)) \<longleftrightarrow>
                  \<not> continuesAt (continuation ast) tokens' p) \<and>
               (\<not> continuesAt (continuation ast) tokens' p \<longrightarrow>
                  parseSQL n tokens' = Some (Inr ast))) \<and>
            (\<forall>semi rest. isSemicolon semi \<longrightarrow>
               parseSQL n (take p tokens @ semi # rest) = Some (Inr ast))"
      by blast
  qed
next
  show "ast = ShowTablesStmt \<longrightarrow>
            p = (if fst (match tokens 2 PUNCTUATION (Some '';'')) then 3 else 2)"
  proof
    assume s: "ast = ShowTablesStmt"
    show "p = (if fst (match tokens 2 PUNCTUATION (Some '';'')) then 3 else 2)"
    proof (cases rule: parse_cases[OF assms])
      case (1 t)
      with s show ?thesis by (auto elim: parseSelect_steps)
    next
      case (2 t)
      with s show ?thesis by (auto dest: parseInsert_statement)
    next
      case (3 t)
      with s show ?thesis by (auto elim: parseUpdate_steps)
    next
      case (4 t)
      with s show ?thesis by (auto elim: parseDelete_steps)
    next
      case (5 t)
      then show ?thesis by (auto dest: parseShow_position)
    qed
  qed
qed

theorem parse_ignores_remaining_tokens_witness:
  "parse 5 deleteTokens = Some (Inr (DeleteStmt ''users'' None, 3))
   \<and> parseSQL 5
        (deleteTokens @
           [\<lparr>tok_type = PUNCTUATION, tok_value = ''('', tok_position = 18\<rparr>,
            \<lparr>tok_type = KEYWORD, tok_value = ''WHERE'', tok_position = 20\<rparr>]) =
       Some (Inr (DeleteStmt ''users'' None))
   \<and> parseSQL 5
        (deleteTokens @
           [\<lparr>tok_type = PUNCTUATION, tok_value = '';'', tok_position = 17\<rparr>,
            \<lparr>tok_type = KEYWORD, tok_value = ''WHERE'', tok_position = 19\<rparr>,
            \<lparr>tok_type = PUNCTUATION, tok_value = '')'', tok_position = 25\<rparr>]) =
       Some (Inr (DeleteStmt ''users'' None))"
proof -
  let ?paren = "deleteTokens @
           [\<lparr>tok_type = PUNCTUATION, tok_value = ''('', tok_position = 18\<rparr>,
            \<lparr>tok_type = KEYWORD, tok_value = ''WHERE'', tok_position = 20\<rparr>]"
  let ?semi = "\<lparr>tok_type = PUNCTUATION, tok_value = '';'', tok_position = 17\<rparr>"
  let ?rest = "[\<lparr>tok_type = KEYWORD, tok_value = ''WHERE'', tok_position = 19\<rparr>,
            \<lparr>tok_type = PUNCTUATION, tok_value = '')'', tok_position = 25\<rparr>]"
  have p: "parse 5 deleteTokens = Some (Inr (DeleteStmt ''users'' None, 3))"
    by code_simp
  have ns: "DeleteStmt ''users'' None \<noteq> ShowTablesStmt" by simp
  have t: "take 3 ?paren = take 3 deleteTokens"
    by code_simp
  have c: "\<not> continuesAt (continuation (DeleteStmt ''users'' None)) ?paren 3"
    by code_simp
  have s: "isSemicolon ?semi"
    by code_simp
  have d: "take 3 deleteTokens = deleteTokens"
    by code_simp
  from parse_ignores_remaining_tokens[OF p] ns t c
  have 1: "parseSQL 5 ?paren = Some (Inr (DeleteStmt ''users'' None))"
    by blast
  from parse_ignores_remaining_tokens[OF p] ns s
  have "parseSQL 5 (take 3 deleteTokens @ ?semi # ?rest) = Some (Inr (DeleteStmt ''users'' None))"
    by blast
  with d have 2: "parseSQL 5 (deleteTokens @ ?semi # ?rest) = Some (Inr (DeleteStmt ''users'' None))"
    by simp
  from p 1 2 show ?thesis by simp
qed

text \<open>
  The claim C10 as stated fails on \<^verbatim>\<open>DELETE FROM users WHERE\<close>: the first three tokens are a
  complete statement, and the fourth makes the parser throw.
\<close>

theorem parse_ignores_remaining_tokens_counterexample:
  "parseSQL 5 deleteTokens = Some (Inr (DeleteStmt ''users'' None))
   \<and> parseSQL 5
        (deleteTokens @ [\<lparr>tok_type = KEYWORD, tok_value = ''WHERE'', tok_position = 18\<rparr>]) =
       Some (Inl UnexpectedEndOfInput)"
  by code_simp

section \<open>The grammar of expressions\<close>

text \<open>
  \<^verbatim>\<open>parseLogicalOr\<close> is rung 6 of the ladder.
\<close>

lemma parseLogicalOr_ladder: "parseLogicalOr primary = ladder 6 primary"
  by (simp add: eval_nat_numeral ladder_binaryLevel)

subsection \<open>More fuel does not change a result\<close>

lemma le_parserD: "le_parser q q' \<Longrightarrow> q tokens pos = Some r \<Longrightarrow> q' tokens pos = Some r"
  unfolding le_parser_def by blast

lemma le_parser_refl: "le_parser q q"
  by (simp add: le_parser_def)

lemma bindP_Some:
  "bindP m f = Some r \<longleftrightarrow>
     (\<exists>e. m = Some (Inl e) \<and> r = Inl e) \<or> (\<exists>x. m = Some (Inr x) \<and> f x = Some r)"
  by (auto simp: bindP_def split: option.splits sum.splits)

lemma binaryLoop_mono:
  assumes "\<And>n m. n \<le> m \<Longrightarrow> le_parser (operand n) (operand' m)"
  shows "binaryLoop ops operand n left tokens pos = Some r \<Longrightarrow> n \<le> m \<Longrightarrow>
         binaryLoop ops operand' m left tokens pos = Some r"
proof (induction n arbitrary: m left pos)
  case 0
  then show ?case by simp
next
  case (Suc n)
  from Suc.prems(2) obtain m' where m: "m = Suc m'" and le: "n \<le> m'"
    by (cases m) auto
  show ?case
  proof (cases "firstMatch tokens pos ops")
    case None
    with Suc.prems(1) m show ?thesis by simp
  next
    case (Some v)
    with Suc.prems(1) have
      b: "bindP (operand n tokens (Suc pos))
            (\<lambda>(right, p). binaryLoop ops operand n (BinaryExpression v left right) tokens p) = Some r"
      by simp
    then consider
      (err) e where "operand n tokens (Suc pos) = Some (Inl e)" "r = Inl e"
    | (ok) right p where "operand n tokens (Suc pos) = Some (Inr (right, p))"
        "binaryLoop ops operand n (BinaryExpression v left right) tokens p = Some r"
      by (auto simp: bindP_Some)
    then show ?thesis
    proof cases
      case err
      from le_parserD[OF assms[OF le] err(1)] err(2) Some m show ?thesis
        by (simp add: bindP_def)
    next
      case ok
      from le_parserD[OF assms[OF le] ok(1)] Suc.IH[OF ok(2) le] Some m show ?thesis
        by (simp add: bindP_def)
    qed
  qed
qed

lemma binaryLevel_mono:
  assumes "\<And>n m. n \<le> m \<Longrightarrow> le_parser (operand n) (operand' m)" and "n \<le> m"
  shows "le_parser (binaryLevel ops operand n) (binaryLevel ops operand' m)"
  unfolding le_parser_def
proof (intro allI impI)
  fix tokens pos r
  assume "binaryLevel ops operand n tokens pos = Some r"
  then consider
      (err) e where "operand n tokens pos = Some (Inl e)" "r = Inl e"
    | (ok) left p where "operand n tokens pos = Some (Inr (left, p))"
        "binaryLoop ops operand n left tokens p = Some r"
    by (auto simp: binaryLevel_def bindP_Some)
  then show "binaryLevel ops operand' m tokens pos = Some r"
  proof cases
    case err
    from le_parserD[OF assms(1)[OF assms(2)] err(1)] err(2) show ?thesis
      by (simp add: binaryLevel_def bindP_def)
  next
    case ok
    from le_parserD[OF assms(1)[OF assms(2)] ok(1)] binaryLoop_mono[OF assms(1) ok(2) assms(2)]
    show ?thesis
      by (simp add: binaryLevel_def bindP_def)
  qed
qed

lemma ladder_mono:
  assumes "le_parser primary primary'"
  shows "n \<le> m \<Longrightarrow> le_parser (ladder h primary n) (ladder h primary' m)"
proof (induction h arbitrary: n m)
  case 0
  with assms show ?case by simp
next
  case (Suc h)
  show ?case
    unfolding ladder.simps
    by (rule binaryLevel_mono[OF Suc.IH Suc.prems])
qed

lemma parsePrimary_Suc_mono: "le_parser (parsePrimary n) (parsePrimary (Suc n))"
proof (induction n)
  case 0
  then show ?case by (simp add: le_parser_def)
next
  case (Suc n)
  have inner: "le_parser (parseLogicalOr (parsePrimary n) n)
                 (parseLogicalOr (parsePrimary (Suc n)) (Suc n))"
    unfolding parseLogicalOr_ladder by (rule ladder_mono[OF Suc]) simp
  show ?case
    unfolding le_parser_def
  proof (intro allI impI)
    fix tokens pos r
    assume a: "parsePrimary (Suc n) tokens pos = Some r"
    show "parsePrimary (Suc (Suc n)) tokens pos = Some r"
    proof (cases "peek tokens pos")
      case None
      with a show ?thesis by simp
    next
      case (Some t)
      show ?thesis
      proof (cases "tok_type t = IDENTIFIER \<or> tok_type t = NUMBER \<or> tok_type t = STRING
                    \<or> \<not> fst (match tokens pos PUNCTUATION (Some ''(''))")
        case True
        with a Some show ?thesis by auto
      next
        case False
        with a Some have
          b: "bindP (parseLogicalOr (parsePrimary n) n tokens (Suc pos))
                (\<lambda>(expression, p).
                   case expect tokens p PUNCTUATION (Some '')'') of
                     Inl e \<Rightarrow> Some (Inl e)
                   | Inr (_, p') \<Rightarrow> Some (Inr (expression, p'))) = Some r"
          by auto
        then consider
            (err) e where "parseLogicalOr (parsePrimary n) n tokens (Suc pos) = Some (Inl e)" "r = Inl e"
          | (ok) x where "parseLogicalOr (parsePrimary n) n tokens (Suc pos) = Some (Inr x)"
              "(case x of (expression, p) \<Rightarrow>
                   case expect tokens p PUNCTUATION (Some '')'') of
                     Inl e \<Rightarrow> Some (Inl e)
                   | Inr (_, p') \<Rightarrow> Some (Inr (expression, p'))) = Some r"
          by (auto simp: bindP_Some)
        then show ?thesis
        proof cases
          case err
          from le_parserD[OF inner err(1)] err(2) False Some show ?thesis
            by (simp add: bindP_def)
        next
          case ok
          from le_parserD[OF inner ok(1)] ok(2) False Some show ?thesis
            by (simp add: bindP_def)
        qed
      qed
    qed
  qed
qed

lemma parsePrimary_mono: "n \<le> m \<Longrightarrow> le_parser (parsePrimary n) (parsePrimary m)"
proof (induction m)
  case 0
  then show ?case by (simp add: le_parser_refl)
next
  case (Suc m)
  show ?case
  proof (cases "n = Suc m")
    case True
    then show ?thesis by (simp add: le_parser_refl)
  next
    case False
    with Suc.prems have "n \<le> m" by simp
    from Suc.IH[OF this] parsePrimary_Suc_mono[of m] show ?thesis
      unfolding le_parser_def by blast
  qed
qed

lemma rung_mono:
  "n \<le> m \<Longrightarrow> le_parser (ladder h (parsePrimary n) n) (ladder h (parsePrimary m) m)"
  by (rule ladder_mono[OF parsePrimary_mono])

lemma parseExpression_mono:
  "parseExpression n tokens pos = Some r \<Longrightarrow> n \<le> m \<Longrightarrow> parseExpression m tokens pos = Some r"
  unfolding parseExpression_def parseLogicalOr_ladder
  by (rule le_parserD[OF rung_mono])

subsection \<open>What the parser returns is a phrase of the grammar\<close>

lemma soundAtD:
  "soundAt h q \<Longrightarrow> q tokens pos = Some (Inr (e, p)) \<Longrightarrow>
   pos < p \<and> p \<le> length tokens \<and> derives h (phrase tokens pos p) e"
  unfolding soundAt_def by blast

lemma phrase_append:
  "a \<le> b \<Longrightarrow> b \<le> c \<Longrightarrow> phrase tokens a c = phrase tokens a b @ phrase tokens b c"
proof -
  assume ab: "a \<le> b" and bc: "b \<le> c"
  then have "c - a = (b - a) + (c - b)" by simp
  then have "take (c - a) (drop a tokens) =
             take (b - a) (drop a tokens) @ take (c - b) (drop (b - a) (drop a tokens))"
    by (simp only: take_add)
  with ab show ?thesis by (simp add: phrase_def)
qed

lemma phrase_one: "pos < length tokens \<Longrightarrow> phrase tokens pos (Suc pos) = [tokens ! pos]"
  by (simp add: phrase_def take_Suc_conv_app_nth[of 0] hd_drop_conv_nth take_Suc)

lemma phrase_all: "phrase tokens 0 (length tokens) = tokens"
  by (simp add: phrase_def)

lemma phrase_middle: "phrase (pre @ ts @ rest) (length pre) (length pre + length ts) = ts"
  by (simp add: phrase_def)

lemma phrase_step:
  assumes "start \<le> pos" and "pos < p" and "pos < length tokens"
  shows "phrase tokens start p =
         phrase tokens start pos @ tokens ! pos # phrase tokens (Suc pos) p"
proof -
  from assms have "phrase tokens start p = phrase tokens start pos @ phrase tokens pos p"
    by (intro phrase_append) simp_all
  also from assms have "phrase tokens pos p = phrase tokens pos (Suc pos) @ phrase tokens (Suc pos) p"
    by (intro phrase_append) simp_all
  finally show ?thesis using assms(3) by (simp add: phrase_one)
qed

lemma match_sign:
  "fst (match tokens pos ty (Some v)) \<Longrightarrow> pos < length tokens \<and> sign ty v (tokens ! pos)"
  by (auto simp: match_fst_iff peek_def split: if_splits)

lemma expect_sign:
  "expect tokens pos ty (Some v) = Inr (t, p) \<Longrightarrow>
   pos < length tokens \<and> p = Suc pos \<and> sign ty v (tokens ! pos)"
  by (auto simp: expect_def peek_def sign_def split: if_splits)

lemma binaryLoop_sound:
  assumes "\<And>n. soundAt h (operand n)" and "h < 6"
  shows "binaryLoop (levelOps h) operand n left tokens pos = Some (Inr (e, p)) \<Longrightarrow>
         start < pos \<Longrightarrow> pos \<le> length tokens \<Longrightarrow>
         derives (Suc h) (phrase tokens start pos) left \<Longrightarrow>
         pos \<le> p \<and> p \<le> length tokens \<and> derives (Suc h) (phrase tokens start p) e"
proof (induction n arbitrary: left pos)
  case 0
  then show ?case by simp
next
  case (Suc n)
  show ?case
  proof (cases "firstMatch tokens pos (levelOps h)")
    case None
    with Suc.prems show ?thesis by simp
  next
    case (Some v)
    with Suc.prems(1) obtain right p1 where
      r: "operand n tokens (Suc pos) = Some (Inr (right, p1))" and
      l: "binaryLoop (levelOps h) operand n (BinaryExpression v left right) tokens p1 =
            Some (Inr (e, p))"
      by (auto simp: bindP_Some_Inr)
    from firstMatch_Some[OF Some] obtain ty where
      ty: "(ty, v) \<in> set (levelOps h)" "fst (match tokens pos ty (Some v))" by blast
    from match_sign[OF ty(2)] have t: "pos < length tokens" "sign ty v (tokens ! pos)"
      by simp_all
    from soundAtD[OF assms(1) r] have
      s: "Suc pos < p1" "p1 \<le> length tokens" "derives h (phrase tokens (Suc pos) p1) right"
      by simp_all
    from Suc.prems(2) s(1) t(1) have
      "phrase tokens start p1 =
       phrase tokens start pos @ tokens ! pos # phrase tokens (Suc pos) p1"
      by (intro phrase_step) simp_all
    with d_binary[OF assms(2) Suc.prems(4) ty(1) t(2) s(3)] have
      d: "derives (Suc h) (phrase tokens start p1) (BinaryExpression v left right)" by simp
    from Suc.prems(2) s(1) have "start < p1" by simp
    from Suc.IH[OF l this s(2) d] s(1) show ?thesis by simp
  qed
qed

lemma binaryLevel_sound:
  assumes "\<And>n. soundAt h (operand n)" and "h < 6"
  shows "soundAt (Suc h) (binaryLevel (levelOps h) operand n)"
  unfolding soundAt_def
proof (intro allI impI)
  fix tokens pos e p
  assume "binaryLevel (levelOps h) operand n tokens pos = Some (Inr (e, p))"
  then obtain left p1 where
    l: "operand n tokens pos = Some (Inr (left, p1))" and
    r: "binaryLoop (levelOps h) operand n left tokens p1 = Some (Inr (e, p))"
    by (auto simp: binaryLevel_def bindP_Some_Inr)
  from soundAtD[OF assms(1) l] have
    s: "pos < p1" "p1 \<le> length tokens" "derives h (phrase tokens pos p1) left" by simp_all
  from d_operand[OF assms(2) s(3)] have "derives (Suc h) (phrase tokens pos p1) left" .
  from binaryLoop_sound[OF assms r s(1) s(2) this] s(1)
  show "pos < p \<and> p \<le> length tokens \<and> derives (Suc h) (phrase tokens pos p) e" by simp
qed

lemma ladder_sound:
  assumes "soundAt 0 primary"
  shows "h \<le> 6 \<Longrightarrow> soundAt h (ladder h primary n)"
proof (induction h arbitrary: n)
  case 0
  with assms show ?case by simp
next
  case (Suc h)
  then have "h < 6" "h \<le> 6" by simp_all
  with Suc.IH show ?case
    unfolding ladder.simps by (intro binaryLevel_sound) simp_all
qed

lemma parsePrimary_sound: "soundAt 0 (parsePrimary n)"
proof (induction n)
  case 0
  then show ?case by (simp add: soundAt_def)
next
  case (Suc n)
  have inner: "soundAt 6 (parseLogicalOr (parsePrimary n) n)"
    unfolding parseLogicalOr_ladder by (rule ladder_sound[OF Suc]) simp
  show ?case
    unfolding soundAt_def
  proof (intro allI impI)
    fix tokens pos e p
    assume a: "parsePrimary (Suc n) tokens pos = Some (Inr (e, p))"
    show "pos < p \<and> p \<le> length tokens \<and> derives 0 (phrase tokens pos p) e"
    proof (cases rule: parsePrimary_Suc_cases[OF a])
      case (1 t)
      then have "pos < length tokens" "tokens ! pos = t"
        by (auto simp: peek_def split: if_splits)
      with 1 d_identifier[of t] show ?thesis by (simp add: phrase_one)
    next
      case (2 t)
      then have "pos < length tokens" "tokens ! pos = t"
        by (auto simp: peek_def split: if_splits)
      with 2 d_literal[of t] show ?thesis by (simp add: phrase_one)
    next
      case (3 t t' p1)
      from match_sign[OF 3(5)] have
        o: "pos < length tokens" "sign PUNCTUATION ''('' (tokens ! pos)" by simp_all
      from soundAtD[OF inner 3(6)] have
        s: "Suc pos < p1" "p1 \<le> length tokens" "derives 6 (phrase tokens (Suc pos) p1) e"
        by simp_all
      from expect_sign[OF 3(7)] have
        c: "p1 < length tokens" "p = Suc p1" "sign PUNCTUATION '')'' (tokens ! p1)"
        by simp_all
      from s(1) c(1) have "phrase tokens (Suc pos) (Suc p1) =
                           phrase tokens (Suc pos) p1 @ tokens ! p1 # phrase tokens (Suc p1) (Suc p1)"
        by (intro phrase_step) simp_all
      then have "phrase tokens (Suc pos) (Suc p1) = phrase tokens (Suc pos) p1 @ [tokens ! p1]"
        by (simp add: phrase_def)
      moreover from o(1) s(1) have
        "phrase tokens pos (Suc p1) =
         phrase tokens pos pos @ tokens ! pos # phrase tokens (Suc pos) (Suc p1)"
        by (intro phrase_step) simp_all
      ultimately have
        "phrase tokens pos p = tokens ! pos # phrase tokens (Suc pos) p1 @ [tokens ! p1]"
        using c(2) by (simp add: phrase_def)
      with d_parenthesized[OF o(2) s(3) c(3)] s(1) c show ?thesis by simp
    qed
  qed
qed

lemma parseExpression_sound:
  "parseExpression n tokens pos = Some (Inr (e, p)) \<Longrightarrow>
   pos < p \<and> p \<le> length tokens \<and> derives 6 (phrase tokens pos p) e"
  unfolding parseExpression_def parseLogicalOr_ladder
  by (rule soundAtD[OF ladder_sound[OF parsePrimary_sound]]) simp_all

subsection \<open>Every phrase of the grammar is parsed to its tree\<close>

text \<open>
  The methods and loops of the ladder compose, whatever fuel each of them needs.
\<close>

lemma loop_mono:
  assumes "binaryLoop ops (ladder h (parsePrimary N)) n left tokens pos = Some r"
      and "N \<le> M" and "n \<le> m"
  shows "binaryLoop ops (ladder h (parsePrimary M)) m left tokens pos = Some r"
  by (rule binaryLoop_mono[OF ladder_mono[OF parsePrimary_mono[OF assms(2)]] assms(1) assms(3)])

lemma parsesTo_Suc:
  assumes "parsesTo h tokens pos (Inr (left, p))" and "loopsTo h left tokens p res"
  shows "parsesTo (Suc h) tokens pos res"
proof -
  from assms obtain n1 n2 where
    a: "ladder h (parsePrimary n1) n1 tokens pos = Some (Inr (left, p))" and
    b: "binaryLoop (levelOps h) (ladder h (parsePrimary n2)) n2 left tokens p = Some res"
    by (auto simp: parsesTo_def loopsTo_def)
  define n where "n = max n1 n2"
  from le_parserD[OF rung_mono a, of n] have
    a': "ladder h (parsePrimary n) n tokens pos = Some (Inr (left, p))" by (simp add: n_def)
  from loop_mono[OF b, of n n] have
    b': "binaryLoop (levelOps h) (ladder h (parsePrimary n)) n left tokens p = Some res"
    by (simp add: n_def)
  from a' b' have "ladder (Suc h) (parsePrimary n) n tokens pos = Some res"
    by (simp add: binaryLevel_def bindP_def)
  then show ?thesis unfolding parsesTo_def by blast
qed

lemma loopsTo_stop:
  assumes "firstMatch tokens pos (levelOps h) = None"
  shows "loopsTo h left tokens pos (Inr (left, pos))"
proof -
  from assms have
    "binaryLoop (levelOps h) (ladder h (parsePrimary (Suc 0))) (Suc 0) left tokens pos =
       Some (Inr (left, pos))" by simp
  then show ?thesis unfolding loopsTo_def by blast
qed

lemma loopsTo_step:
  assumes "firstMatch tokens pos (levelOps h) = Some v"
      and "parsesTo h tokens (Suc pos) (Inr (right, p))"
      and "loopsTo h (BinaryExpression v left right) tokens p res"
  shows "loopsTo h left tokens pos res"
proof -
  from assms(2,3) obtain n1 n2 where
    a: "ladder h (parsePrimary n1) n1 tokens (Suc pos) = Some (Inr (right, p))" and
    b: "binaryLoop (levelOps h) (ladder h (parsePrimary n2)) n2
          (BinaryExpression v left right) tokens p = Some res"
    by (auto simp: parsesTo_def loopsTo_def)
  define n where "n = max n1 n2"
  have "le_parser (ladder h (parsePrimary n1) n1) (ladder h (parsePrimary (Suc n)) n)"
    by (rule ladder_mono[OF parsePrimary_mono]) (simp_all add: n_def)
  from le_parserD[OF this a] have
    a': "ladder h (parsePrimary (Suc n)) n tokens (Suc pos) = Some (Inr (right, p))" .
  from loop_mono[OF b, of "Suc n" n] have
    b': "binaryLoop (levelOps h) (ladder h (parsePrimary (Suc n))) n
           (BinaryExpression v left right) tokens p = Some res"
    by (simp add: n_def)
  from assms(1) a' b' have
    "binaryLoop (levelOps h) (ladder h (parsePrimary (Suc n))) (Suc n) left tokens pos = Some res"
    by (simp add: bindP_def)
  then show ?thesis unfolding loopsTo_def by blast
qed

lemma parsesTo_identifier:
  assumes "peek tokens pos = Some t" and "tok_type t = IDENTIFIER"
  shows "parsesTo 0 tokens pos (Inr (Identifier (tok_value t), Suc pos))"
proof -
  from assms have
    "ladder 0 (parsePrimary (Suc 0)) (Suc 0) tokens pos =
       Some (Inr (Identifier (tok_value t), Suc pos))" by simp
  then show ?thesis unfolding parsesTo_def by blast
qed

lemma parsesTo_literal:
  assumes "peek tokens pos = Some t" and "tok_type t = NUMBER \<or> tok_type t = STRING"
  shows "parsesTo 0 tokens pos (Inr (Literal (tok_value t) (tok_type t), Suc pos))"
proof -
  from assms have
    "ladder 0 (parsePrimary (Suc 0)) (Suc 0) tokens pos =
       Some (Inr (Literal (tok_value t) (tok_type t), Suc pos))" by auto
  then show ?thesis unfolding parsesTo_def by blast
qed

lemma parsesTo_parenthesized:
  assumes "peek tokens pos = Some t1" and "sign PUNCTUATION ''('' t1"
      and "parsesTo 6 tokens (Suc pos) (Inr (e, p))"
      and "peek tokens p = Some t2" and "sign PUNCTUATION '')'' t2"
  shows "parsesTo 0 tokens pos (Inr (e, Suc p))"
proof -
  from assms(3) obtain n where
    "ladder 6 (parsePrimary n) n tokens (Suc pos) = Some (Inr (e, p))"
    by (auto simp: parsesTo_def)
  then have inner: "parseLogicalOr (parsePrimary n) n tokens (Suc pos) = Some (Inr (e, p))"
    by (simp add: parseLogicalOr_ladder)
  from assms(1,2) have m: "fst (match tokens pos PUNCTUATION (Some ''(''))"
    by (auto simp: match_fst_iff)
  from assms(2) have ty: "tok_type t1 \<noteq> IDENTIFIER" "tok_type t1 \<noteq> NUMBER" "tok_type t1 \<noteq> STRING"
    by (auto simp: sign_def)
  from assms(4,5) have x: "expect tokens p PUNCTUATION (Some '')'') = Inr (t2, Suc p)"
    by (auto simp: expect_def sign_def)
  from assms(1) m ty inner x have
    "parsePrimary (Suc n) tokens pos = Some (Inr (e, Suc p))"
    by (simp add: bindP_def)
  then have "ladder 0 (parsePrimary (Suc n)) (Suc n) tokens pos = Some (Inr (e, Suc p))"
    by simp
  then show ?thesis unfolding parsesTo_def by blast
qed

subsubsection \<open>The operators of the rungs\<close>

lemma levelOps_upper: "(ty, v) \<in> set (levelOps h) \<Longrightarrow> toUpperCase v = v"
  by (cases h rule: levelOps.cases)
     (auto simp: multiplicativeOps_def additiveOps_def relationalOps_def equalityOps_def
        logicalAndOps_def logicalOrOps_def toUpperCase_def)

lemma levelOps_disjoint:
  "(ty, v) \<in> set (levelOps h) \<Longrightarrow> (ty, v) \<in> set (levelOps j) \<Longrightarrow> h = j"
  by (cases h rule: levelOps.cases; cases j rule: levelOps.cases)
     (auto simp: multiplicativeOps_def additiveOps_def relationalOps_def equalityOps_def
        logicalAndOps_def logicalOrOps_def)

lemma levelOps_type:
  "(ty, v) \<in> set (levelOps h) \<Longrightarrow> ty = OPERATOR \<or> ty = KEYWORD"
  by (cases h rule: levelOps.cases)
     (auto simp: multiplicativeOps_def additiveOps_def relationalOps_def equalityOps_def
        logicalAndOps_def logicalOrOps_def)

lemma levelOps_operatorSigns: "h < 6 \<Longrightarrow> set (levelOps h) \<subseteq> set operatorSigns"
  by (cases h rule: levelOps.cases) (auto simp: operatorSigns_def)

lemma operator_unique:
  assumes "(ty, v) \<in> set (levelOps h)" and "(ty', v') \<in> set (levelOps j)"
      and "sign ty v t" and "sign ty' v' t"
  shows "h = j \<and> v = v'"
proof -
  from assms(3,4) have ty: "ty = ty'" and up: "toUpperCase v = toUpperCase v'"
    by (auto simp: sign_def)
  have "v = toUpperCase v" using levelOps_upper[OF assms(1)] by (rule sym)
  also note up
  also note levelOps_upper[OF assms(2)]
  finally have v: "v = v'" .
  from assms(2) ty v have "(ty, v) \<in> set (levelOps j)" by blast
  from levelOps_disjoint[OF assms(1) this] v show ?thesis by blast
qed

lemma firstMatch_sign:
  assumes "(ty, v) \<in> set (levelOps h)" and "peek tokens pos = Some t" and "sign ty v t"
  shows "firstMatch tokens pos (levelOps h) = Some v"
proof (cases "firstMatch tokens pos (levelOps h)")
  case None
  with assms show ?thesis by (auto simp: firstMatch_None match_fst_iff)
next
  case (Some v')
  from firstMatch_Some[OF Some] obtain ty' where
    "(ty', v') \<in> set (levelOps h)" "fst (match tokens pos ty' (Some v'))" by blast
  with assms(2) have "(ty', v') \<in> set (levelOps h)" "sign ty' v' t"
    by (auto simp: match_fst_iff)
  from operator_unique[OF assms(1) this(1) assms(3) this(2)] Some show ?thesis by simp
qed

lemma tightAt_operator:
  assumes "(ty, v) \<in> set (levelOps h)" and "peek tokens pos = Some t" and "sign ty v t"
  shows "tightAt h tokens pos"
  unfolding tightAt_def
proof (intro allI impI)
  fix j assume j: "j < h"
  show "firstMatch tokens pos (levelOps j) = None"
  proof (cases "firstMatch tokens pos (levelOps j)")
    case None
    then show ?thesis .
  next
    case (Some v')
    from firstMatch_Some[OF Some] obtain ty' where
      "(ty', v') \<in> set (levelOps j)" "fst (match tokens pos ty' (Some v'))" by blast
    with assms(2) have "(ty', v') \<in> set (levelOps j)" "sign ty' v' t"
      by (auto simp: match_fst_iff)
    from operator_unique[OF assms(1) this(1) assms(3) this(2)] j show ?thesis by simp
  qed
qed

lemma tightAt_other:
  assumes "\<And>t. peek tokens pos = Some t \<Longrightarrow> \<not> operatorToken t"
  shows "tightAt h tokens pos"
  unfolding tightAt_def
proof (intro allI impI)
  fix j assume "j < h"
  show "firstMatch tokens pos (levelOps j) = None"
  proof (cases "firstMatch tokens pos (levelOps j)")
    case None
    then show ?thesis .
  next
    case (Some v')
    from firstMatch_Some[OF Some] obtain ty' where
      m: "(ty', v') \<in> set (levelOps j)" "fst (match tokens pos ty' (Some v'))" by blast
    from m(2) obtain t where t: "peek tokens pos = Some t" "sign ty' v' t"
      by (auto simp: match_fst_iff)
    from m(1) have "j < 6" by (cases j rule: levelOps.cases) simp_all
    from levelOps_operatorSigns[OF this] m(1) t(2) have "operatorToken t"
      by (auto simp: operatorToken_def)
    with assms[OF t(1)] show ?thesis by simp
  qed
qed

lemma punctuation_not_operator: "sign PUNCTUATION v t \<Longrightarrow> \<not> operatorToken t"
  by (auto simp: operatorToken_def operatorSigns_def sign_def multiplicativeOps_def
        additiveOps_def relationalOps_def equalityOps_def logicalAndOps_def logicalOrOps_def)

lemma tightAt_le: "tightAt h tokens p \<Longrightarrow> k \<le> h \<Longrightarrow> tightAt k tokens p"
  by (simp add: tightAt_def)

lemma contTo_stop: "tightAt h tokens p \<Longrightarrow> contTo h e tokens p (Inr (e, p))"
  by (cases h) (simp_all add: tightAt_def loopsTo_stop)

lemma completeD:
  assumes "complete h ts e" and "tightAt h (pre @ ts @ rest) (length pre + length ts)"
  shows "parsesTo h (pre @ ts @ rest) (length pre) (Inr (e, length pre + length ts))"
proof -
  from assms(2) have "tightAt (h - 1) (pre @ ts @ rest) (length pre + length ts)"
    by (rule tightAt_le) simp
  with assms(1) contTo_stop[OF assms(2)] show ?thesis
    unfolding complete_def by blast
qed

lemma peek_middle: "peek (pre @ t # rest) (length pre) = Some t"
  by (simp add: peek_def)

lemma derives_complete: "derives h ts e \<Longrightarrow> complete h ts e"
proof (induction rule: derives.induct)
  case (d_identifier t)
  show ?case
    unfolding complete_def
  proof (intro allI impI)
    fix pre rest res
    assume "contTo 0 (Identifier (tok_value t)) (pre @ [t] @ rest) (length pre + length [t]) res"
    then have "res = Inr (Identifier (tok_value t), Suc (length pre))" by simp
    with parsesTo_identifier[OF peek_middle[of pre t rest] d_identifier]
    show "parsesTo 0 (pre @ [t] @ rest) (length pre) res" by simp
  qed
next
  case (d_literal t)
  show ?case
    unfolding complete_def
  proof (intro allI impI)
    fix pre rest res
    assume "contTo 0 (Literal (tok_value t) (tok_type t)) (pre @ [t] @ rest)
              (length pre + length [t]) res"
    then have "res = Inr (Literal (tok_value t) (tok_type t), Suc (length pre))" by simp
    with parsesTo_literal[OF peek_middle[of pre t rest] d_literal]
    show "parsesTo 0 (pre @ [t] @ rest) (length pre) res" by simp
  qed
next
  case (d_parenthesized t1 ts e t2)
  show ?case
    unfolding complete_def
  proof (intro allI impI)
    fix pre rest res
    let ?toks = "pre @ (t1 # ts @ [t2]) @ rest"
    assume "contTo 0 e ?toks (length pre + length (t1 # ts @ [t2])) res"
    then have res: "res = Inr (e, Suc (Suc (length pre + length ts)))" by simp
    have toks: "?toks = (pre @ [t1]) @ ts @ (t2 # rest)" by simp
    have p2: "peek ?toks (length (pre @ [t1]) + length ts) = Some t2"
      unfolding toks using peek_middle[of "(pre @ [t1]) @ ts" t2 rest] by simp
    have "tightAt 6 ?toks (length (pre @ [t1]) + length ts)"
      by (rule tightAt_other) (use p2 d_parenthesized(3) punctuation_not_operator in auto)
    from completeD[OF d_parenthesized.IH, of "pre @ [t1]" "t2 # rest"] this have
      inner: "parsesTo 6 ?toks (Suc (length pre)) (Inr (e, Suc (length pre + length ts)))"
      by simp
    have p1: "peek ?toks (length pre) = Some t1"
      using peek_middle[of pre t1 "ts @ [t2] @ rest"] by simp
    from p2 have p2': "peek ?toks (Suc (length pre + length ts)) = Some t2" by simp
    from parsesTo_parenthesized[OF p1 d_parenthesized(1) inner p2' d_parenthesized(3)] res
    show "parsesTo 0 ?toks (length pre) res" by simp
  qed
next
  case (d_operand h ts e)
  show ?case
    unfolding complete_def
  proof (intro allI impI)
    fix pre rest res
    let ?toks = "pre @ ts @ rest" and ?p = "length pre + length ts"
    assume t: "tightAt (Suc h - 1) ?toks ?p" and c: "contTo (Suc h) e ?toks ?p res"
    from t have "tightAt h ?toks ?p" by simp
    from completeD[OF d_operand.IH this] have "parsesTo h ?toks (length pre) (Inr (e, ?p))" .
    with c show "parsesTo (Suc h) ?toks (length pre) res"
      by (auto intro: parsesTo_Suc)
  qed
next
  case (d_binary h ts1 l ty v t ts2 r)
  show ?case
    unfolding complete_def
  proof (intro allI impI)
    fix pre rest res
    let ?toks = "pre @ (ts1 @ t # ts2) @ rest"
    let ?p1 = "length pre + length ts1"
    let ?p = "length pre + length (ts1 @ t # ts2)"
    assume t: "tightAt (Suc h - 1) ?toks ?p"
       and c: "contTo (Suc h) (BinaryExpression v l r) ?toks ?p res"
    have toks1: "?toks = pre @ ts1 @ (t # ts2 @ rest)" by simp
    have toks2: "?toks = (pre @ ts1 @ [t]) @ ts2 @ rest" by simp
    have pk: "peek ?toks ?p1 = Some t"
      using peek_middle[of "pre @ ts1" t "ts2 @ rest"] by simp
    from tightAt_operator[OF d_binary(3) pk d_binary(4)] have t1: "tightAt h ?toks ?p1" .
    from firstMatch_sign[OF d_binary(3) pk d_binary(4)] have
      fm: "firstMatch ?toks ?p1 (levelOps h) = Some v" .
    from t have "tightAt h ((pre @ ts1 @ [t]) @ ts2 @ rest) (length (pre @ ts1 @ [t]) + length ts2)"
      by (simp add: add.assoc)
    from completeD[OF d_binary.IH(2) this] have
      right: "parsesTo h ?toks (Suc ?p1) (Inr (r, ?p))" by (simp add: add.assoc)
    from c have "loopsTo h (BinaryExpression v l r) ?toks ?p res" by simp
    from loopsTo_step[OF fm right this] have lp: "loopsTo h l ?toks ?p1 res" .
    from t1 have "tightAt (Suc h - 1) (pre @ ts1 @ (t # ts2 @ rest)) ?p1" by simp
    moreover from lp have "contTo (Suc h) l (pre @ ts1 @ (t # ts2 @ rest)) ?p1 res" by simp
    ultimately have "parsesTo (Suc h) (pre @ ts1 @ (t # ts2 @ rest)) (length pre) res"
      using d_binary.IH(1) unfolding complete_def by blast
    then show "parsesTo (Suc h) ?toks (length pre) res" by simp
  qed
qed

lemma parseExpression_complete:
  assumes "derives 6 ts e" and "rest = [] \<or> \<not> operatorToken (hd rest)"
  shows "\<exists>m. \<forall>n\<ge>m. parseExpression n (pre @ ts @ rest) (length pre) =
                       Some (Inr (e, length pre + length ts))"
proof -
  let ?toks = "pre @ ts @ rest" and ?p = "length pre + length ts"
  have "tightAt 6 ?toks ?p"
  proof (rule tightAt_other)
    fix t assume "peek ?toks ?p = Some t"
    then have "rest \<noteq> []" "t = hd rest"
      by (auto simp: peek_def nth_append hd_conv_nth split: if_splits)
    with assms(2) show "\<not> operatorToken t" by simp
  qed
  from completeD[OF derives_complete[OF assms(1)] this] obtain m where
    m: "ladder 6 (parsePrimary m) m ?toks (length pre) = Some (Inr (e, ?p))"
    by (auto simp: parsesTo_def)
  have "\<forall>n\<ge>m. parseExpression n ?toks (length pre) = Some (Inr (e, ?p))"
  proof (intro allI impI)
    fix n assume "m \<le> n"
    from le_parserD[OF rung_mono[OF this] m]
    show "parseExpression n ?toks (length pre) = Some (Inr (e, ?p))"
      by (simp add: parseExpression_def parseLogicalOr_ladder)
  qed
  then show ?thesis by blast
qed

subsection \<open>The precedence ladder\<close>

text \<open>
  Claim C6. The parser builds the tree that the precedence ladder gives: whatever
  \<^verbatim>\<open>parseExpression\<close> returns is the tree of the tokens it consumed, read as an expression of
  the grammar (\<open>derives 6\<close>: OR below AND below equality below relational below additive
  below multiplicative, every rung associating to the left, a parenthesized expression
  standing for its own tree with no node added); every token sequence that is an expression
  of the grammar, not followed by a binary operator, is parsed to its tree, at the position
  behind it, by every run with fuel enough; the grammar gives a token sequence one tree only;
  and the text \<^verbatim>\<open>id = 1 AND (name = 'Alice' OR name = 'Bob')\<close> is tokenized and parsed to the
  AND node of the comparison of \<^verbatim>\<open>id\<close> and of the OR node of the two comparisons of
  \<^verbatim>\<open>name\<close>.
\<close>

theorem parseExpression_precedence:
  "(parseExpression n tokens pos = Some (Inr (e, p)) \<longrightarrow>
      pos < p \<and> p \<le> length tokens \<and> derives 6 (phrase tokens pos p) e) \<and>
   (derives 6 ts tree \<and> (rest = [] \<or> \<not> operatorToken (hd rest)) \<longrightarrow>
      (\<exists>m. \<forall>k\<ge>m. parseExpression k (pre @ ts @ rest) (length pre) =
                      Some (Inr (tree, length pre + length ts)))) \<and>
   (derives 6 ts tree \<and> derives 6 ts tree' \<longrightarrow> tree = tree') \<and>
   lexicalAnalysis conditionText = Inr conditionTokens \<and>
   (\<forall>k\<ge>4. parseExpression k conditionTokens 0 = Some (Inr (conditionTree, 13)))"
proof -
  have sound: "parseExpression n tokens pos = Some (Inr (e, p)) \<longrightarrow>
      pos < p \<and> p \<le> length tokens \<and> derives 6 (phrase tokens pos p) e"
    by (blast dest: parseExpression_sound)
  have complete: "derives 6 ts tree \<and> (rest = [] \<or> \<not> operatorToken (hd rest)) \<longrightarrow>
      (\<exists>m. \<forall>k\<ge>m. parseExpression k (pre @ ts @ rest) (length pre) =
                      Some (Inr (tree, length pre + length ts)))"
    using parseExpression_complete[of ts tree rest pre] by blast
  have unique: "derives 6 ts tree \<and> derives 6 ts tree' \<longrightarrow> tree = tree'"
  proof
    assume d: "derives 6 ts tree \<and> derives 6 ts tree'"
    from d parseExpression_complete[of ts tree "[]" "[]"] obtain m where
      m: "\<forall>k\<ge>m. parseExpression k ts 0 = Some (Inr (tree, length ts))" by auto
    from d parseExpression_complete[of ts tree' "[]" "[]"] obtain m' where
      m': "\<forall>k\<ge>m'. parseExpression k ts 0 = Some (Inr (tree', length ts))" by auto
    from m have "parseExpression (max m m') ts 0 = Some (Inr (tree, length ts))" by simp
    moreover from m' have "parseExpression (max m m') ts 0 = Some (Inr (tree', length ts))" by simp
    ultimately show "tree = tree'" by simp
  qed
  have lexed: "lexicalAnalysis conditionText = Inr conditionTokens"
    by code_simp
  have four: "parseExpression 4 conditionTokens 0 = Some (Inr (conditionTree, 13))"
    by code_simp
  have parsed: "\<forall>k\<ge>4. parseExpression k conditionTokens 0 = Some (Inr (conditionTree, 13))"
    using parseExpression_mono[OF four] by blast
  from sound complete unique lexed parsed show ?thesis by blast
qed

theorem parseExpression_precedence_witness:
  "derives 6 arithmeticTokens arithmeticTree \<and>
   (\<exists>m. \<forall>k\<ge>m. parseExpression k (arithmeticTokens @ [semicolonToken]) 0 =
                   Some (Inr (arithmeticTree, 7)))"
proof -
  have run: "parseExpression 4 arithmeticTokens 0 = Some (Inr (arithmeticTree, 7))"
    by code_simp
  have all: "phrase arithmeticTokens 0 7 = arithmeticTokens"
    by code_simp
  from parseExpression_precedence[where n = 4 and tokens = arithmeticTokens and pos = 0
         and e = arithmeticTree and p = 7] run all
  have tree: "derives 6 arithmeticTokens arithmeticTree" by simp
  have "\<not> operatorToken semicolonToken"
    by (simp add: punctuation_not_operator[of "'';''"] sign_def semicolonToken_def)
  then have stop: "[semicolonToken] = [] \<or> \<not> operatorToken (hd [semicolonToken])" by simp
  have len: "length arithmeticTokens = 7" by (simp add: arithmeticTokens_def)
  from parseExpression_precedence[where ts = arithmeticTokens and tree = arithmeticTree
         and rest = "[semicolonToken]" and pre = "[]"] tree stop
  have "\<exists>m. \<forall>k\<ge>m. parseExpression k ([] @ arithmeticTokens @ [semicolonToken]) (length ([] :: token list)) =
                   Some (Inr (arithmeticTree, length ([] :: token list) + length arithmeticTokens))"
    by blast
  with len have "\<exists>m. \<forall>k\<ge>m. parseExpression k (arithmeticTokens @ [semicolonToken]) 0 =
                   Some (Inr (arithmeticTree, 7))" by simp
  with tree show ?thesis by blast
qed

end
